theory Spec2Isabelle
  imports Main "HOL-Library.Monad_Syntax" "HOL-Library.Multiset" "HOL-Library.Signed_Division"
begin

chapter \<open>The embedding\<close>

section \<open>Machine integers and failures\<close>

text \<open>
  The scheduler computes with C++ \<^verbatim>\<open>int\<close>. Values are modelled as HOL integers and every
  multiplication that accumulates extents is reduced to the 32-bit two's-complement
  range, as the target machine does. (C++ leaves signed overflow undefined; the theorems
  below therefore state where they need shapes whose element count fits.) Division and
  remainder truncate towards zero: \<open>sdiv\<close> and \<open>smod\<close>.
\<close>

definition int32 :: "int \<Rightarrow> int" where
  "int32 x = (x + 2147483648) mod 4294967296 - 2147483648"

definition mul32 :: "int \<Rightarrow> int \<Rightarrow> int" where
  "mul32 a b = int32 (a * b)"

text \<open>
  A shape as the shape table stores it: positive extents. \<open>shape_fits\<close> says that the
  element count is representable, so that no running product overflows.
\<close>

definition shape_fits :: "int list \<Rightarrow> bool" where
  "shape_fits shape \<longleftrightarrow> list_all (\<lambda>d. 0 < d) shape \<and> prod_list shape < 2147483648"

text \<open>
  Every way in which a function of the file stops without returning: a failed
  \<^verbatim>\<open>CHECK\<close> (with the text of its condition), \<^verbatim>\<open>LOG(FATAL)\<close> (with its message), the
  exception of \<^verbatim>\<open>.at(key)\<close>, and the undefined behaviours the code can run into (reading a
  vector outside its bounds, dereferencing \<^verbatim>\<open>end()\<close> of a map, dividing by zero,
  incrementing an \<^verbatim>\<open>int\<close> beyond its range).
\<close>

datatype error =
    CheckFailed string
  | LogFatal string
  | KeyNotFound string
  | IndexOutOfBounds
  | DivisionByZero
  | SignedOverflow
  | EndIterator

definition at_key :: "(string \<rightharpoonup> 'v) \<Rightarrow> string \<Rightarrow> error + 'v" where
  "at_key dict key = (case dict key of None \<Rightarrow> Inl (KeyNotFound key) | Some v \<Rightarrow> Inr v)"

definition at_index :: "'a list \<Rightarrow> int \<Rightarrow> error + 'a" where
  "at_index xs i = (if 0 \<le> i \<and> i < int (length xs) then Inr (xs ! nat i) else Inl IndexOutOfBounds)"

section \<open>Graph query layer\<close>

text \<open>
  Operator nodes are values of a type \<open>'n\<close>; where the code orders them
  (\<^verbatim>\<open>utils::NodeCompare\<close>, by \<^verbatim>\<open>id()\<close>) the type is linearly ordered, a node standing for its
  identifier. The graph gives, for an operator node: the name and pattern kind of its
  operator, the identifier of the data node \<^verbatim>\<open>GetNodeData\<close> returns, the operator nodes at
  the sinks of that data node's out-links, its in-links in order (the identifier of the
  source data node and that data node's \<^verbatim>\<open>source_node\<close>, absent for a graph input) and
  its attribute \<^verbatim>\<open>dim\<close>.
\<close>

datatype OpPatternKind =
  kElementWise | kBroadcast | kInjective | kReduction | kOutFusible | kNonFusible

record 'n Graph =
  op_name :: "'n \<Rightarrow> string"
  op_pattern :: "'n \<Rightarrow> OpPatternKind"
  node_data_id :: "'n \<Rightarrow> string"
  data_outlinks :: "'n \<Rightarrow> 'n list"
  inlinks_in_order :: "'n \<Rightarrow> (string \<times> 'n option) list"
  attr_dim :: "'n \<Rightarrow> int list option"

text \<open>
  A group: its nodes (\<^verbatim>\<open>NodeSet()\<close>, an unordered set, here in some order of iteration),
  its output nodes and its aggregate pattern kind.
\<close>

record 'n Group =
  nodes :: "'n list"
  output_nodes :: "'n set"
  op_pattern_kind :: OpPatternKind

definition GetConsumers :: "'n Graph \<Rightarrow> 'n \<Rightarrow> 'n list" where
  "GetConsumers g node = data_outlinks g node"

definition GetConsumersInSet :: "'n Graph \<Rightarrow> 'n \<Rightarrow> 'n set \<Rightarrow> 'n list" where
  "GetConsumersInSet g node node_set =
     filter (\<lambda>consumer. consumer \<in> node_set) (data_outlinks g node)"

definition GetProducers :: "'n Graph \<Rightarrow> 'n \<Rightarrow> 'n list" where
  "GetProducers g node = List.map_filter snd (inlinks_in_order g node)"

definition GetProducersInSet :: "'n Graph \<Rightarrow> 'n \<Rightarrow> 'n set \<Rightarrow> 'n list" where
  "GetProducersInSet g node node_set =
     filter (\<lambda>producer. producer \<in> node_set) (GetProducers g node)"

definition const_op_type :: "string list" where
  "const_op_type = [''const_scalar'', ''fill_constant'', ''arange'']"

definition IsConstOp :: "'n Graph \<Rightarrow> 'n \<Rightarrow> bool" where
  "IsConstOp g node = (if op_name g node \<in> set const_op_type then True else False)"

definition GetInputShape :: "'n Graph \<Rightarrow> 'n \<Rightarrow> (string \<rightharpoonup> int list) \<Rightarrow> error + int list" where
  "GetInputShape g node shape_dict =
     (let producers = GetProducers g node
      in if producers = [] then Inl (CheckFailed ''producers.size()'')
         else at_key shape_dict (node_data_id g (hd producers)))"

definition GetOutputShape :: "'n Graph \<Rightarrow> 'n \<Rightarrow> (string \<rightharpoonup> int list) \<Rightarrow> error + int list" where
  "GetOutputShape g node shape_dict = at_key shape_dict (node_data_id g node)"

text \<open>
  \<^verbatim>\<open>FindReducerInRoute\<close>: a breadth-first search without a visited set. The inner loop
  returns the first Reduction node among the visited neighbours or pushes them all; the
  outer loop runs while the queue is non-empty, and need not stop on a cyclic graph.
\<close>

fun FindReducerInRoute_visit :: "'n Graph \<Rightarrow> 'n list \<Rightarrow> 'n list \<Rightarrow> 'n + 'n list" where
  "FindReducerInRoute_visit g [] candidates = Inr candidates"
| "FindReducerInRoute_visit g (consumer # rest) candidates =
     (if op_pattern g consumer = kReduction then Inl consumer
      else FindReducerInRoute_visit g rest (candidates @ [consumer]))"

partial_function (option) FindReducerInRoute_loop ::
  "'n Graph \<Rightarrow> ('n \<Rightarrow> 'n list) \<Rightarrow> 'n list \<Rightarrow> 'n option option" where
  "FindReducerInRoute_loop g visitor candidates =
     (case candidates of
        [] \<Rightarrow> Some None
      | candidate # rest \<Rightarrow>
          (case FindReducerInRoute_visit g (visitor candidate) rest of
             Inl consumer \<Rightarrow> Some (Some consumer)
           | Inr candidates' \<Rightarrow> FindReducerInRoute_loop g visitor candidates'))"

definition FindReducerInRoute ::
  "'n Graph \<Rightarrow> 'n \<Rightarrow> 'n set \<Rightarrow> ('n Graph \<Rightarrow> 'n \<Rightarrow> 'n set \<Rightarrow> 'n list) \<Rightarrow> 'n option option" where
  "FindReducerInRoute g node nodes_set visitor =
     FindReducerInRoute_loop g (\<lambda>candidate. visitor g candidate nodes_set) [node]"

section \<open>Ordering builder\<close>

definition FindConsumers :: "'n Graph \<Rightarrow> 'n \<Rightarrow> 'n set \<Rightarrow> ('n \<rightharpoonup> 'n) \<Rightarrow> 'n list" where
  "FindConsumers g node nodes_set virtual_consumers =
     (let consumers = GetConsumersInSet g node nodes_set
      in case virtual_consumers node of
           Some v \<Rightarrow> consumers @ [v]
         | None \<Rightarrow> consumers)"

text \<open>
  \<^verbatim>\<open>TopologicalOrder\<close>. The state of the \<^verbatim>\<open>while\<close> loop is \<^verbatim>\<open>nodes_in_order\<close> and
  \<^verbatim>\<open>nodes_set\<close>; one pass is the \<^verbatim>\<open>for\<close> loop over \<^verbatim>\<open>tmp_node_set\<close>, the sorted copy of
  \<^verbatim>\<open>nodes_set\<close> taken at the start of the pass. The \<^verbatim>\<open>while\<close> loop does not stop when a
  pass erases nothing.
\<close>

fun TopologicalOrder_pass ::
  "'n Graph \<Rightarrow> ('n \<rightharpoonup> 'n) \<Rightarrow> 'n list \<Rightarrow> 'n list \<times> 'n list \<Rightarrow> 'n list \<times> 'n list" where
  "TopologicalOrder_pass g vc [] st = st"
| "TopologicalOrder_pass g vc (node # rest) (nodes_in_order, nodes_set) =
     (let consumers = FindConsumers g node (set nodes_set) vc;
          cant_be_erase = list_ex (\<lambda>consumer. consumer \<in> set nodes_set) consumers
      in if cant_be_erase then TopologicalOrder_pass g vc rest (nodes_in_order, nodes_set)
         else TopologicalOrder_pass g vc rest
                (nodes_in_order @ [node], removeAll node nodes_set))"

partial_function (option) TopologicalOrder_loop ::
  "'n::linorder Graph \<Rightarrow> ('n \<rightharpoonup> 'n) \<Rightarrow> 'n list \<times> 'n list \<Rightarrow> 'n list option" where
  "TopologicalOrder_loop g vc st =
     (if snd st = [] then Some (fst st)
      else TopologicalOrder_loop g vc
             (TopologicalOrder_pass g vc (sort (remdups (snd st))) st))"

definition TopologicalOrder ::
  "'n::linorder Graph \<Rightarrow> 'n Group \<Rightarrow> ('n \<rightharpoonup> 'n) \<Rightarrow> 'n list option" where
  "TopologicalOrder g grp virtual_consumers =
     TopologicalOrder_loop g virtual_consumers ([], nodes grp)"

text \<open>
  Notions used to state the ordering property: the position of a node in a sequence, a
  real or virtual producer-to-consumer edge, and the edges inside a node set.
\<close>

fun position :: "'a list \<Rightarrow> 'a \<Rightarrow> nat" where
  "position [] x = 0"
| "position (y # ys) x = (if x = y then 0 else Suc (position ys x))"

definition consumer_edge :: "'n Graph \<Rightarrow> ('n \<rightharpoonup> 'n) \<Rightarrow> 'n \<Rightarrow> 'n \<Rightarrow> bool" where
  "consumer_edge g vc p c \<longleftrightarrow> c \<in> set (data_outlinks g p) \<or> vc p = Some c"

definition group_edges :: "'n Graph \<Rightarrow> ('n \<rightharpoonup> 'n) \<Rightarrow> 'n set \<Rightarrow> ('n \<times> 'n) set" where
  "group_edges g vc N = {(p, c). p \<in> N \<and> c \<in> N \<and> consumer_edge g vc p c}"

definition blocked :: "'n Graph \<Rightarrow> ('n \<rightharpoonup> 'n) \<Rightarrow> 'n \<Rightarrow> 'n set \<Rightarrow> bool" where
  "blocked g vc node S \<longleftrightarrow> (\<exists>c. consumer_edge g vc node c \<and> c \<in> S)"

definition order_inv ::
  "'n Graph \<Rightarrow> ('n \<rightharpoonup> 'n) \<Rightarrow> 'n set \<Rightarrow> 'n list \<times> 'n list \<Rightarrow> bool" where
  "order_inv g vc N st \<longleftrightarrow>
     distinct (fst st) \<and> set (fst st) \<union> set (snd st) = N \<and> set (fst st) \<inter> set (snd st) = {} \<and>
     (\<forall>p c. p \<in> set (fst st) \<and> c \<in> N \<and> consumer_edge g vc p c \<longrightarrow>
        c \<in> set (fst st) \<and> position (fst st) c < position (fst st) p)"

section \<open>Reduction loop planner: strategy selection\<close>

text \<open>
  The loop \<^verbatim>\<open>for (int idx = start; idx < shape.size(); ++idx) acc *= shape[idx];\<close>
  of \<^verbatim>\<open>WithoutLastDimInReduce\<close> and \<^verbatim>\<open>LoopAssignReduceWithoutLast\<close>. The test compares
  the \<^verbatim>\<open>int\<close> index with a \<^verbatim>\<open>size_t\<close>, that is as unsigned values, so a negative index
  fails it.
\<close>

function mul_dims_from :: "int list \<Rightarrow> int \<Rightarrow> int \<Rightarrow> int" where
  "mul_dims_from shape idx acc =
     (if 0 \<le> idx \<and> idx < int (length shape)
      then mul_dims_from shape (idx + 1) (mul32 acc (shape ! nat idx))
      else acc)"
  by pat_completeness auto
termination
  by (relation "measure (\<lambda>(shape, idx, acc). nat (int (length shape) - idx))") auto

declare mul_dims_from.simps [simp del]

text \<open>
  \<^verbatim>\<open>std::find(axes.begin(), axes.end(), shape.size() - 1)\<close> compares each axis with the
  \<^verbatim>\<open>size_t\<close> value \<^verbatim>\<open>shape.size() - 1\<close>; for an empty shape that value is the
  conversion of \<open>-1\<close>, for a non-empty one only the non-negative axis \<open>size - 1\<close> equals it.
\<close>

definition WithoutLastDimInReduce :: "int list \<Rightarrow> int list \<Rightarrow> bool" where
  "WithoutLastDimInReduce shape axes =
     (if axes = [] then False
      else if int (length shape) - 1 \<in> set axes \<or> - 1 \<in> set axes then False
      else (let sum_last_axes = mul_dims_from shape (last axes + 1) 1
            in if sum_last_axes > 1 then True else False))"

section \<open>Loop-nest IR\<close>

text \<open>
  The schedule object (\<^verbatim>\<open>ir::IRSchedule\<close>) belongs to the IR library. Its state is
  modelled by the sequence of transformations applied to it so far, and what the code
  reads from it (the loops around a block, whether a block exists, the blocks in
  order) by a view of that state, which the functions take as a parameter. A loop is
  known by its identity (\<^verbatim>\<open>Expr\<close> equality is pointer equality) and its extent. The root
  expression \<^verbatim>\<open>GetModule().GetExprs().at(0)\<close> is taken to exist.
\<close>

record Loop =
  loop_id :: nat
  extent :: int

datatype ScheduleOp =
    Split string int "int list"
  | SplitLoop Loop "int list"
  | Fuse string "int list"
  | FuseLoops "Loop list"
  | Reorder string "int list"
  | SetBuffer string string bool
  | SyncThreads Loop bool
  | SimpleComputeAt string Loop
  | MergeLoopsBody "Loop list" "Loop list" int

type_synonym IRSchedule = "ScheduleOp list"

record ScheduleView =
  GetLoops :: "IRSchedule \<Rightarrow> string \<Rightarrow> Loop list"
  HasBlock :: "IRSchedule \<Rightarrow> string \<Rightarrow> bool"
  GetAllBlocks :: "IRSchedule \<Rightarrow> string list"

text \<open>
  A function that transforms the schedule either completes, or stops with a failure in
  the schedule state reached so far.
\<close>

datatype outcome = Done IRSchedule | Fatal error IRSchedule

fun and_then :: "outcome \<Rightarrow> (IRSchedule \<Rightarrow> outcome) \<Rightarrow> outcome" where
  "and_then (Done sch) f = f sch"
| "and_then (Fatal e sch) f = Fatal e sch"

section \<open>Reduction loop planner\<close>

text \<open>
  \<^verbatim>\<open>LoopOrderAssignReduce\<close>. The search
  \<^verbatim>\<open>for (idx = max_num_threads; idx > 0; --idx)\<close> for a factor of \<^verbatim>\<open>psize\<close>:
\<close>

function LoopOrderAssignReduce_search :: "int \<Rightarrow> int \<Rightarrow> error + int option" where
  "LoopOrderAssignReduce_search psize idx =
     (if idx > 0 then
        (if psize smod idx = 0 then Inr (Some idx)
         else if \<not> idx > 1 then Inl (CheckFailed ''idx > 1'')
         else LoopOrderAssignReduce_search psize (idx - 1))
      else Inr None)"
  by pat_completeness auto
termination
  by (relation "measure (\<lambda>(psize, idx). nat idx)") auto

declare LoopOrderAssignReduce_search.simps [simp del]

definition LoopOrderAssignReduce ::
  "ScheduleView \<Rightarrow> IRSchedule \<Rightarrow> string \<Rightarrow> int list \<Rightarrow> int \<Rightarrow> bool \<Rightarrow> outcome" where
  "LoopOrderAssignReduce view sch block_name axes max_num_threads just_reorder =
     (let n_out_dims = int (length (GetLoops view sch block_name));
          order = filter (\<lambda>idx. idx \<notin> set axes) [0..n_out_dims - 1] @ axes;
          sch1 = sch @ [Reorder block_name order]
      in if just_reorder then Done sch1
         else if axes = [] then Fatal IndexOutOfBounds sch1
         else
           (let last_dimension_num = n_out_dims - last axes - 1;
                index = n_out_dims - last_dimension_num - int (length axes);
                sch2 = sch1 @ replicate (nat (last_dimension_num - 1))
                                (Fuse block_name [index, index + 1])
            in case at_index (GetLoops view sch2 block_name) index of
                 Inl e \<Rightarrow> Fatal e sch2
               | Inr loop \<Rightarrow>
                   (let psize = extent loop
                    in case (if psize > max_num_threads
                             then LoopOrderAssignReduce_search psize max_num_threads
                             else Inr None) of
                         Inl e \<Rightarrow> Fatal e sch2
                       | Inr found \<Rightarrow>
                           (let sch3 = (case found of
                                          Some idx \<Rightarrow> sch2 @ [SplitLoop loop [- 1, idx]]
                                        | None \<Rightarrow> sch2)
                            in Done (sch3 @ replicate (nat (index - 1))
                                              (Fuse block_name [0, 1]))))))"

text \<open>
  \<^verbatim>\<open>LoopAssignReduceWithoutLast\<close>. Its backward scan over the axes yields \<^verbatim>\<open>pos\<close>,
  \<^verbatim>\<open>index\<close> and \<^verbatim>\<open>lane\<close>.
\<close>

function WithoutLast_scan ::
  "int list \<Rightarrow> int list \<Rightarrow> int \<Rightarrow> int \<Rightarrow> int \<Rightarrow> int \<Rightarrow> error + int \<times> int \<times> int" where
  "WithoutLast_scan inshape axes max_num_threads pos index lane =
     (if index \<ge> 0 then
        (if index + 1 < int (length axes) \<and> axes ! nat index \<noteq> axes ! nat (index + 1) - 1
         then Inr (axes ! nat (index + 1), index, lane)
         else
           (case at_index inshape (axes ! nat index) of
              Inl e \<Rightarrow> Inl e
            | Inr d \<Rightarrow>
                (let lane' = mul32 lane d
                 in if lane' > max_num_threads sdiv 2 then Inr (axes ! nat index, index, lane')
                    else WithoutLast_scan inshape axes max_num_threads
                           (if index = 0 then axes ! 0 else pos) (index - 1) lane')))
      else Inr (pos, index, lane))"
  by pat_completeness auto
termination
  by (relation "measure (\<lambda>(inshape, axes, T, pos, index, lane). nat (index + 1))") auto

declare WithoutLast_scan.simps [simp del]

text \<open>
  The search \<^verbatim>\<open>for (idx = max_num_threads / tail; idx > (max_num_threads / 2) / tail; --idx)\<close>
  with its \<^verbatim>\<open>CHECK_GT(idx - 1, ...)\<close> at the end of the body; \<open>lo\<close> is the lower bound.
\<close>

function WithoutLast_search :: "int \<Rightarrow> int \<Rightarrow> int \<Rightarrow> error + int option" where
  "WithoutLast_search prefix lo idx =
     (if idx > lo then
        (if idx = 0 then Inl DivisionByZero
         else if prefix smod idx = 0 then Inr (Some idx)
         else if \<not> idx - 1 > lo
           then Inl (CheckFailed ''idx - 1 > (max_num_threads / 2) / tail'')
         else WithoutLast_search prefix lo (idx - 1))
      else Inr None)"
  by pat_completeness auto
termination
  by (relation "measure (\<lambda>(prefix, lo, idx). nat (idx - lo))") auto

declare WithoutLast_search.simps [simp del]

definition WithoutLast_split ::
  "IRSchedule \<Rightarrow> string \<Rightarrow> int list \<Rightarrow> int list \<Rightarrow> int \<Rightarrow> int \<Rightarrow> int \<Rightarrow> outcome" where
  "WithoutLast_split sch block_name inshape axes max_num_threads index lane =
     (case at_index axes index of
        Inl e \<Rightarrow> Fatal e sch
      | Inr axis \<Rightarrow>
          (case at_index inshape axis of
             Inl e \<Rightarrow> Fatal e sch
           | Inr prefix \<Rightarrow>
               if prefix = 0 then Fatal DivisionByZero sch
               else
                 (let tail = lane sdiv prefix
                  in if tail = 0 then Fatal DivisionByZero sch
                     else
                       (case WithoutLast_search prefix ((max_num_threads sdiv 2) sdiv tail)
                               (max_num_threads sdiv tail) of
                          Inl e \<Rightarrow> Fatal e sch
                        | Inr None \<Rightarrow> Done sch
                        | Inr (Some idx) \<Rightarrow> Done (sch @ [Split block_name axis [- 1, idx]])))))"

text \<open>The loop "insert 1": \<open>n\<close> splits at \<^verbatim>\<open>pos\<close> by the current extent of that loop.\<close>

fun WithoutLast_insert :: "ScheduleView \<Rightarrow> string \<Rightarrow> int \<Rightarrow> nat \<Rightarrow> IRSchedule \<Rightarrow> outcome" where
  "WithoutLast_insert view block_name pos 0 sch = Done sch"
| "WithoutLast_insert view block_name pos (Suc n) sch =
     (case at_index (GetLoops view sch block_name) pos of
        Inl e \<Rightarrow> Fatal e sch
      | Inr loop \<Rightarrow>
          WithoutLast_insert view block_name pos n
            (sch @ [Split block_name pos [- 1, extent loop]]))"

text \<open>The loop "return insert 1": \<open>n\<close> rounds, fusing a loop of extent one into the loop before it.\<close>

fun WithoutLast_return ::
  "ScheduleView \<Rightarrow> string \<Rightarrow> nat \<Rightarrow> int \<Rightarrow> IRSchedule \<Rightarrow> outcome" where
  "WithoutLast_return view block_name 0 start_index sch = Done sch"
| "WithoutLast_return view block_name (Suc n) start_index sch =
     (let loops = GetLoops view sch block_name
      in case at_index loops start_index of
           Inl e \<Rightarrow> Fatal e sch
         | Inr loop \<Rightarrow>
             if extent loop = 1 then
               (case at_index loops (start_index - 1) of
                  Inl e \<Rightarrow> Fatal e sch
                | Inr prev \<Rightarrow>
                    WithoutLast_return view block_name n start_index
                      (sch @ [FuseLoops [prev, loop]]))
             else WithoutLast_return view block_name n (start_index + 1) sch)"

definition LoopAssignReduceWithoutLast ::
  "ScheduleView \<Rightarrow> IRSchedule \<Rightarrow> string \<Rightarrow> int list \<Rightarrow> int list \<Rightarrow> int \<Rightarrow> outcome" where
  "LoopAssignReduceWithoutLast view sch block_name inshape axes max_num_threads =
     (if axes = [] then Fatal (CheckFailed ''axes.size()'') sch
      else
        (let lane = mul_dims_from inshape (last axes + 1) 1
         in if \<not> lane \<le> max_num_threads sdiv 2
            then Fatal (CheckFailed ''lane <= max_num_threads / 2'') sch
            else
              (case WithoutLast_scan inshape axes max_num_threads 0
                      (int (length axes) - 1) lane of
                 Inl e \<Rightarrow> Fatal e sch
               | Inr (pos, index, lane') \<Rightarrow>
                   and_then
                     (if lane' > max_num_threads sdiv 2
                      then WithoutLast_split sch block_name inshape axes max_num_threads
                             index lane'
                      else Done sch)
                     (\<lambda>sch1. and_then
                        (WithoutLast_insert view block_name pos
                           (nat (int (length axes) - 1 - index)) sch1)
                        (\<lambda>sch2. and_then
                           (LoopOrderAssignReduce view sch2 block_name axes max_num_threads
                              False)
                           (\<lambda>sch3. WithoutLast_return view block_name (length axes)
                              (int (length (GetLoops view sch3 block_name))
                                 - int (length axes)) sch3))))))"

text \<open>
  \<^verbatim>\<open>LoopAssignReduceWithLast\<close>. Its backward scan yields \<^verbatim>\<open>index\<close> and \<^verbatim>\<open>lane\<close>, or
  stops at \<^verbatim>\<open>LOG(FATAL)\<close>.
\<close>

function WithLast_scan ::
  "int list \<Rightarrow> int list \<Rightarrow> int \<Rightarrow> int \<Rightarrow> int \<Rightarrow> error + int \<times> int" where
  "WithLast_scan inshape axes max_num_threads index lane =
     (if index \<ge> 0 then
        (if index + 1 < int (length axes) \<and> axes ! nat index \<noteq> axes ! nat (index + 1) - 1
         then Inr (index, lane)
         else
           (case at_index inshape (axes ! nat index) of
              Inl e \<Rightarrow> Inl e
            | Inr d \<Rightarrow>
                (let lane' = mul32 lane d
                 in if index = 0 \<and> lane' \<le> max_num_threads
                    then Inl (LogFatal
                      ''Error! lane is less equal than max_num_threads, Please check!'')
                    else if lane' \<ge> max_num_threads sdiv 2
                      then (if lane' \<le> max_num_threads then Inr (index - 1, lane')
                            else Inr (index, lane'))
                    else WithLast_scan inshape axes max_num_threads (index - 1) lane')))
      else Inr (index, lane))"
  by pat_completeness auto
termination
  by (relation "measure (\<lambda>(inshape, axes, T, index, lane). nat (index + 1))") auto

declare WithLast_scan.simps [simp del]

text \<open>
  The search \<^verbatim>\<open>do { ... --idx; } while (idx >= max_num_threads / 2)\<close> for a factor of
  \<^verbatim>\<open>lane\<close>; without a factor it ends with \<^verbatim>\<open>idx\<close> below the bound.
\<close>

function WithLast_search :: "int \<Rightarrow> int \<Rightarrow> int \<Rightarrow> error + int option" where
  "WithLast_search lane lo idx =
     (if idx = 0 then Inl DivisionByZero
      else if lane smod idx = 0 then Inr (Some idx)
      else if idx - 1 \<ge> lo then WithLast_search lane lo (idx - 1)
      else Inr None)"
  by pat_completeness auto
termination
  by (relation "measure (\<lambda>(lane, lo, idx). nat (idx - lo))") auto

declare WithLast_search.simps [simp del]

text \<open>
  The search \<^verbatim>\<open>for (idx = max_num_threads / tail; idx > (max_num_threads / 2) / tail; --idx)\<close>
  of the other branch; its \<^verbatim>\<open>CHECK_GT(idx, ...)\<close> repeats the loop condition.
\<close>

function WithLast_search_prefix :: "int \<Rightarrow> int \<Rightarrow> int \<Rightarrow> error + int option" where
  "WithLast_search_prefix prefix lo idx =
     (if idx > lo then
        (if idx = 0 then Inl DivisionByZero
         else if prefix smod idx = 0 then Inr (Some idx)
         else if \<not> idx > lo then Inl (CheckFailed ''idx > (max_num_threads / 2) / tail'')
         else WithLast_search_prefix prefix lo (idx - 1))
      else Inr None)"
  by pat_completeness auto
termination
  by (relation "measure (\<lambda>(prefix, lo, idx). nat (idx - lo))") auto

declare WithLast_search_prefix.simps [simp del]

definition WithLast_split ::
  "IRSchedule \<Rightarrow> string \<Rightarrow> int list \<Rightarrow> int list \<Rightarrow> int \<Rightarrow> int \<Rightarrow> int \<Rightarrow> outcome" where
  "WithLast_split sch block_name inshape axes max_num_threads index lane =
     (if index = int (length axes) - 1 then
        (case WithLast_search lane (max_num_threads sdiv 2) max_num_threads of
           Inl e \<Rightarrow> Fatal e sch
         | Inr None \<Rightarrow> Fatal (CheckFailed ''idx >= max_num_threads / 2'') sch
         | Inr (Some idx) \<Rightarrow>
             (case at_index axes index of
                Inl e \<Rightarrow> Fatal e sch
              | Inr axis \<Rightarrow>
                  (let sch1 = sch @ [Split block_name axis [- 1, idx]]
                   in if idx \<ge> max_num_threads sdiv 2 then Done sch1
                      else Fatal (CheckFailed ''idx >= max_num_threads / 2'') sch1)))
      else
        (case at_index axes index of
           Inl e \<Rightarrow> Fatal e sch
         | Inr axis \<Rightarrow>
             (case at_index inshape axis of
                Inl e \<Rightarrow> Fatal e sch
              | Inr prefix \<Rightarrow>
                  if prefix = 0 then Fatal DivisionByZero sch
                  else
                    (let tail = lane sdiv prefix
                     in if tail = 0 then Fatal DivisionByZero sch
                        else
                          (case WithLast_search_prefix prefix
                                  ((max_num_threads sdiv 2) sdiv tail)
                                  (max_num_threads sdiv tail) of
                             Inl e \<Rightarrow> Fatal e sch
                           | Inr None \<Rightarrow> Done sch
                           | Inr (Some idx) \<Rightarrow>
                               Done (sch @ [Split block_name axis [- 1, idx]]))))))"

definition LoopAssignReduceWithLast ::
  "ScheduleView \<Rightarrow> IRSchedule \<Rightarrow> string \<Rightarrow> int list \<Rightarrow> int list \<Rightarrow> int \<Rightarrow> outcome" where
  "LoopAssignReduceWithLast view sch block_name inshape axes max_num_threads =
     (case WithLast_scan inshape axes max_num_threads (int (length axes) - 1) 1 of
        Inl e \<Rightarrow> Fatal e sch
      | Inr (index, lane) \<Rightarrow>
          (let first_axes = take (nat (index + 1)) axes
           in if lane > max_num_threads then
                and_then
                  (WithLast_split sch block_name inshape axes max_num_threads index lane)
                  (\<lambda>sch1. LoopOrderAssignReduce view sch1 block_name first_axes
                     max_num_threads False)
              else
                (let fuse_times = int (length axes) - (index + 1) - 1;
                     sch1 = sch @ replicate (nat fuse_times)
                              (Fuse block_name
                                 [axes ! nat (index + 1), axes ! nat (index + 1) + 1])
                 in and_then
                      (LoopOrderAssignReduce view sch1 block_name first_axes
                         max_num_threads True)
                      (\<lambda>sch2. Done (sch2 @ replicate
                         (nat (int (length inshape) - int (length axes) - 1))
                         (Fuse block_name [0, 1]))))))"


text \<open>The extents of the reduce axes, in the order of the axes list.\<close>

definition reduce_extents :: "int list \<Rightarrow> int list \<Rightarrow> int list" where
  "reduce_extents inshape axes = map (\<lambda>axis. inshape ! nat axis) axes"

section \<open>Fusibility classifier\<close>

text \<open>\<^verbatim>\<open>std::accumulate(shape.begin(), shape.end(), 1, std::multiplies<int>())\<close>.\<close>

definition accumulate_multiplies :: "int list \<Rightarrow> int" where
  "accumulate_multiplies shape = foldl mul32 1 shape"

text \<open>
  The comparison of two element counts that ends both branches of \<^verbatim>\<open>CanbeInline\<close>; the
  shapes are looked up first, in the order of the code.
\<close>

definition numel_differs :: "error + int list \<Rightarrow> error + int list \<Rightarrow> error + bool" where
  "numel_differs lookup1 lookup2 =
     (case lookup1 of
        Inl e \<Rightarrow> Inl e
      | Inr shape1 \<Rightarrow>
          (case lookup2 of
             Inl e \<Rightarrow> Inl e
           | Inr shape2 \<Rightarrow>
               Inr (if accumulate_multiplies shape1 \<noteq> accumulate_multiplies shape2
                    then True else False)))"

text \<open>
  \<^verbatim>\<open>CanbeInline\<close>. The result is \<open>None\<close> when a search for a reducer does not return.
  \<^verbatim>\<open>reducer\<close> may be null; \<^verbatim>\<open>laster\<close> is the front of the node order.
\<close>

definition CanbeInline ::
  "'n Graph \<Rightarrow> 'n \<Rightarrow> 'n list \<Rightarrow> 'n option \<Rightarrow> 'n \<Rightarrow> 'n Group \<Rightarrow> 'n set \<Rightarrow>
   (string \<rightharpoonup> int list) \<Rightarrow> (error + bool) option" where
  "CanbeInline g node consumers reducer laster grp nodes_set shape_dict =
     (if node \<in> output_nodes grp then Some (Inr False)
      else if IsConstOp g node then Some (Inr True)
      else if list_ex (\<lambda>consumer. op_pattern g consumer = kReduction) consumers
        then Some (Inr False)
      else if op_pattern g node = kReduction then Some (Inr False)
      else if length consumers = 1 then Some (Inr True)
      else
        (case reducer of
           Some reducer' \<Rightarrow>
             do {
               downstream \<leftarrow> FindReducerInRoute g node nodes_set GetConsumersInSet;
               if downstream \<noteq> None then
                 do {
                   upstream \<leftarrow> FindReducerInRoute g node nodes_set GetProducersInSet;
                   if upstream = None then
                     Some (numel_differs (GetOutputShape g node shape_dict)
                             (GetInputShape g reducer' shape_dict))
                   else Some (Inr False)
                 }
               else Some (Inr False)
             }
         | None \<Rightarrow>
             Some (numel_differs (GetOutputShape g node shape_dict)
                     (GetOutputShape g laster shape_dict))))"

text \<open>
  The rules of the classifier, in the words of its specification. A node reaches a
  reducer along a neighbour function when a chain of neighbours leads from it to a
  Reduction node.
\<close>

inductive reaches_reducer :: "'n Graph \<Rightarrow> ('n \<Rightarrow> 'n list) \<Rightarrow> 'n \<Rightarrow> bool"
  for g :: "'n Graph" and neighbours :: "'n \<Rightarrow> 'n list" where
  direct: "c \<in> set (neighbours n) \<Longrightarrow> op_pattern g c = kReduction \<Longrightarrow>
     reaches_reducer g neighbours n"
| via: "c \<in> set (neighbours n) \<Longrightarrow> reaches_reducer g neighbours c \<Longrightarrow>
     reaches_reducer g neighbours n"

fun first_match :: "(bool \<times> 'a) list \<Rightarrow> 'a \<Rightarrow> 'a" where
  "first_match [] otherwise = otherwise"
| "first_match ((condition, result) # rules) otherwise =
     (if condition then result else first_match rules otherwise)"

definition element_count :: "error + int list \<Rightarrow> error + int" where
  "element_count lookup = (case lookup of Inl e \<Rightarrow> Inl e | Inr shape \<Rightarrow> Inr (prod_list shape))"

definition counts_differ :: "error + int \<Rightarrow> error + int \<Rightarrow> error + bool" where
  "counts_differ count1 count2 =
     (case count1 of
        Inl e \<Rightarrow> Inl e
      | Inr n1 \<Rightarrow> (case count2 of Inl e \<Rightarrow> Inl e | Inr n2 \<Rightarrow> Inr (n1 \<noteq> n2)))"

definition can_inline_spec ::
  "'n Graph \<Rightarrow> 'n \<Rightarrow> 'n list \<Rightarrow> 'n option \<Rightarrow> 'n \<Rightarrow> 'n Group \<Rightarrow> 'n set \<Rightarrow>
   (string \<rightharpoonup> int list) \<Rightarrow> error + bool" where
  "can_inline_spec g node consumers reducer laster grp nodes_set shape_dict =
     first_match
       [(node \<in> output_nodes grp, Inr False),
        (op_name g node \<in> {''const_scalar'', ''fill_constant'', ''arange''}, Inr True),
        (\<exists>consumer \<in> set consumers. op_pattern g consumer = kReduction, Inr False),
        (op_pattern g node = kReduction, Inr False),
        (length consumers = 1, Inr True)]
       (case reducer of
          Some global_reducer \<Rightarrow>
            if reaches_reducer g (\<lambda>n. GetConsumersInSet g n nodes_set) node \<and>
               \<not> reaches_reducer g (\<lambda>n. GetProducersInSet g n nodes_set) node
            then counts_differ (element_count (GetOutputShape g node shape_dict))
                   (element_count (GetInputShape g global_reducer shape_dict))
            else Inr False
        | None \<Rightarrow>
            counts_differ (element_count (GetOutputShape g node shape_dict))
              (element_count (GetOutputShape g laster shape_dict)))"

section \<open>Loop merger\<close>

text \<open>
  \<^verbatim>\<open>MergeLoops\<close>. What it does to the tree once its checks have passed (renaming the loop
  variables of \<^verbatim>\<open>src\<close>, putting the body of \<^verbatim>\<open>src[index]\<close> in front of the body of
  \<^verbatim>\<open>dst[index]\<close>, removing \<^verbatim>\<open>src[0]\<close> from the root) is one entry of the schedule state.
\<close>

definition MergeLoops :: "IRSchedule \<Rightarrow> Loop list \<Rightarrow> Loop list \<Rightarrow> int \<Rightarrow> outcome" where
  "MergeLoops sch src dst index =
     (if index < 0 then Done sch
      else if \<not> int (length src) > index then Fatal (CheckFailed ''src.size() > index'') sch
      else if \<not> int (length dst) > index then Fatal (CheckFailed ''dst.size() > index'') sch
      else if src ! 0 = dst ! 0 then Done sch
      else Done (sch @ [MergeLoopsBody src dst index]))"

text \<open>\<^verbatim>\<open>std::to_string\<close> of an \<^verbatim>\<open>int\<close>.\<close>

function to_string_nat :: "nat \<Rightarrow> string" where
  "to_string_nat n =
     (if n < 10 then [''0123456789'' ! n]
      else to_string_nat (n div 10) @ [''0123456789'' ! (n mod 10)])"
  by pat_completeness auto
termination
  by (relation "measure id") auto

declare to_string_nat.simps [simp del]

definition to_string :: "int \<Rightarrow> string" where
  "to_string i = (if i < 0 then CHR ''-'' # to_string_nat (nat (- i)) else to_string_nat (nat i))"

text \<open>The tensors of the tensor map are used through their name only.\<close>

record Tensor =
  tensor_name :: string

text \<open>
  \<^verbatim>\<open>InsertSyncThread\<close>. Its loop \<^verbatim>\<open>for (int idx = 0;; ++idx)\<close> returns in its second round
  at the latest; the two rounds are written out.
\<close>

definition InsertSyncThread ::
  "ScheduleView \<Rightarrow> 'n Graph \<Rightarrow> IRSchedule \<Rightarrow> 'n \<Rightarrow> (string \<rightharpoonup> int list) \<Rightarrow>
   (string \<rightharpoonup> Tensor) \<Rightarrow> outcome" where
  "InsertSyncThread view g sch node shape_dict tensor_map =
     (case at_index (inlinks_in_order g node) 0 of
        Inl e \<Rightarrow> Fatal e sch
      | Inr (input_id, source_node) \<Rightarrow>
          (case shape_dict input_id of
             None \<Rightarrow> Fatal (CheckFailed ''shape_dict.count(node->inlinks_in_order()[0]->source()->id())'') sch
           | Some shape \<Rightarrow>
               (case attr_dim g node of
                  None \<Rightarrow> Fatal (KeyNotFound ''dim'') sch
                | Some dim \<Rightarrow>
                    (let axes = (if dim = [] then [0..int (length shape) - 1] else dim)
                     in if \<not> WithoutLastDimInReduce shape axes then Done sch
                        else
                          (case tensor_map (node_data_id g node) of
                             None \<Rightarrow> Done sch
                           | Some tensor \<Rightarrow>
                               if \<not> HasBlock view sch (tensor_name tensor) then Done sch
                               else
                                 (case tensor_map (node_data_id g node @ ''_0'') of
                                    None \<Rightarrow> Done sch
                                  | Some tensor0 \<Rightarrow>
                                      if \<not> HasBlock view sch (tensor_name tensor0) then Done sch
                                      else
                                        (case GetLoops view sch (node_data_id g node) of
                                           [] \<Rightarrow> Fatal IndexOutOfBounds sch
                                         | l # ls \<Rightarrow>
                                             Done (sch @ [SyncThreads (last (l # ls)) False]))))))))"

text \<open>
  \<^verbatim>\<open>MergeReduceLoop\<close>. The \<^verbatim>\<open>while\<close> loop that counts the leading loops of equal extent
  reads \<^verbatim>\<open>src_loops[index + 1]\<close> and \<^verbatim>\<open>dst_loops[index + 1]\<close> before it tests the sizes.
\<close>

function MergeReduceLoop_match :: "Loop list \<Rightarrow> Loop list \<Rightarrow> int \<Rightarrow> error + int" where
  "MergeReduceLoop_match src_loops dst_loops index =
     (case at_index src_loops (index + 1) of
        Inl e \<Rightarrow> Inl e
      | Inr s \<Rightarrow>
          (case at_index dst_loops (index + 1) of
             Inl e \<Rightarrow> Inl e
           | Inr d \<Rightarrow>
               if extent s = extent d then
                 (if int (length src_loops) = index + 1 + 1 \<or> int (length dst_loops) = index + 1 + 1
                  then Inr (index + 1)
                  else MergeReduceLoop_match src_loops dst_loops (index + 1))
               else Inr index))"
  by pat_completeness auto
termination
  by (relation "measure (\<lambda>(src_loops, dst_loops, index). nat (int (length src_loops) - index))")
    (auto simp: at_index_def split: if_splits)

declare MergeReduceLoop_match.simps [simp del]

text \<open>
  The loop over the stages \<^verbatim>\<open>for (int idx = 0;; ++idx)\<close>, with its state \<^verbatim>\<open>post_\<close>,
  \<^verbatim>\<open>post__\<close> and \<^verbatim>\<open>min_index_loop\<close>; it returns \<^verbatim>\<open>min_index_loop\<close> with the outcome.
\<close>

function MergeReduceLoop_stages ::
  "ScheduleView \<Rightarrow> (string \<rightharpoonup> Tensor) \<Rightarrow> string \<Rightarrow> int \<Rightarrow> string \<Rightarrow> string \<Rightarrow> int \<Rightarrow>
   IRSchedule \<Rightarrow> int \<times> outcome" where
  "MergeReduceLoop_stages view tensor_map node_id idx post1 post2 min_index_loop sch =
     (case tensor_map (node_id @ post2) of
        None \<Rightarrow> (min_index_loop, Done sch)
      | Some tensor2 \<Rightarrow>
          (case tensor_map (node_id @ post1) of
             None \<Rightarrow> (min_index_loop, Fatal EndIterator sch)
           | Some tensor1 \<Rightarrow>
               if \<not> HasBlock view sch (tensor_name tensor2) then (min_index_loop, Done sch)
               else
                 (let dst_loops = GetLoops view sch (tensor_name tensor1);
                      src_loops = GetLoops view sch (tensor_name tensor2)
                  in case MergeReduceLoop_match src_loops dst_loops (- 1) of
                       Inl e \<Rightarrow> (min_index_loop, Fatal e sch)
                     | Inr index \<Rightarrow>
                         (case MergeLoops sch src_loops dst_loops index of
                            Fatal e sch' \<Rightarrow> (min min_index_loop index, Fatal e sch')
                          | Done sch' \<Rightarrow>
                              if idx \<ge> 2147483647
                              then (min min_index_loop index, Fatal SignedOverflow sch')
                              else MergeReduceLoop_stages view tensor_map node_id (idx + 1)
                                     (''_'' @ to_string idx) (''_'' @ to_string (idx + 1))
                                     (min min_index_loop index) sch'))))"
  by pat_completeness auto
termination
  by (relation "measure (\<lambda>(view, tensor_map, node_id, idx, post1, post2, m, sch).
        nat (2147483647 - idx))") auto

declare MergeReduceLoop_stages.simps [simp del]

text \<open>The closing \<^verbatim>\<open>do ... while (--index >= 0)\<close> of \<^verbatim>\<open>MergeReduceLoop\<close>.\<close>

function MergeReduceLoop_attach ::
  "ScheduleView \<Rightarrow> IRSchedule \<Rightarrow> string \<Rightarrow> string \<Rightarrow> Loop list \<Rightarrow> Loop list \<Rightarrow> int \<Rightarrow> int \<Rightarrow>
   outcome" where
  "MergeReduceLoop_attach view sch node_id master_id node_loops master_loops min_index_loop index =
     (case at_index node_loops index of
        Inl e \<Rightarrow> Fatal e sch
      | Inr n \<Rightarrow>
          (case at_index master_loops index of
             Inl e \<Rightarrow> Fatal e sch
           | Inr m \<Rightarrow>
               if extent n \<noteq> extent m then
                 (if index - 1 \<ge> 0
                  then MergeReduceLoop_attach view sch node_id master_id node_loops master_loops
                         min_index_loop (index - 1)
                  else Done sch)
               else
                 and_then (MergeLoops sch node_loops master_loops (min index min_index_loop))
                   (\<lambda>sch1.
                      if index > min_index_loop then
                        (case GetLoops view sch1 master_id of
                           [] \<Rightarrow> Fatal IndexOutOfBounds sch1
                         | l # ls \<Rightarrow> Done (sch1 @ [SimpleComputeAt node_id (last (l # ls))]))
                      else Done sch1)))"
  by pat_completeness auto
termination
  by (relation "measure (\<lambda>(view, sch, node_id, master_id, node_loops, master_loops, m, index).
        nat (index + 1))") auto

declare MergeReduceLoop_attach.simps [simp del]

text \<open>
  \<^verbatim>\<open>MergeReduceToReduce\<close> is a sequence of calls into the IR library on the staged tensors
  of both reductions; \<^verbatim>\<open>MergeReduceLoop\<close> hands the whole merge over to it when the master
  is another reduction. It is a parameter \<open>reduce_to_reduce\<close> of the two functions that
  reach it.
\<close>

definition MergeReduceLoop ::
  "ScheduleView \<Rightarrow> (IRSchedule \<Rightarrow> 'n \<Rightarrow> 'n \<Rightarrow> outcome) \<Rightarrow> 'n Graph \<Rightarrow> IRSchedule \<Rightarrow> 'n \<Rightarrow> 'n \<Rightarrow>
   (string \<rightharpoonup> int list) \<Rightarrow> (string \<rightharpoonup> Tensor) \<Rightarrow> outcome" where
  "MergeReduceLoop view reduce_to_reduce g sch node master shape_dict tensor_map =
     (if op_pattern g master = kReduction \<and> node \<noteq> master then reduce_to_reduce sch node master
      else
        (case MergeReduceLoop_stages view tensor_map (node_data_id g node) 0 [] ''_0''
                2147483647 sch of
           (min_index_loop, Fatal e sch') \<Rightarrow> Fatal e sch'
         | (min_index_loop, Done sch1) \<Rightarrow>
             and_then (InsertSyncThread view g sch1 node shape_dict tensor_map)
               (\<lambda>sch2.
                  if node = master then Done sch2
                  else
                    (let node_loops = GetLoops view sch2 (node_data_id g node);
                         master_loops = GetLoops view sch2 (node_data_id g master)
                     in MergeReduceLoop_attach view sch2 (node_data_id g node)
                          (node_data_id g master) node_loops master_loops min_index_loop
                          (int (min (length node_loops) (length master_loops)) - 1)))))"

text \<open>
  \<^verbatim>\<open>LoopComputeAt\<close>. For a Reduction master the loop \<^verbatim>\<open>for (int idx = 0;; ++idx)\<close> finds
  the suffix of the last staged tensor that has a block.
\<close>

function LoopComputeAt_real_master ::
  "ScheduleView \<Rightarrow> IRSchedule \<Rightarrow> (string \<rightharpoonup> Tensor) \<Rightarrow> string \<Rightarrow> int \<Rightarrow> string \<Rightarrow> string \<Rightarrow>
   error + string" where
  "LoopComputeAt_real_master view sch tensor_map master_id idx prefix post =
     (case tensor_map (master_id @ post) of
        None \<Rightarrow> Inr prefix
      | Some tensor \<Rightarrow>
          if \<not> HasBlock view sch (tensor_name tensor) then Inr prefix
          else if idx \<ge> 2147483647 then Inl SignedOverflow
          else LoopComputeAt_real_master view sch tensor_map master_id (idx + 1) post
                 (''_'' @ to_string idx))"
  by pat_completeness auto
termination
  by (relation "measure (\<lambda>(view, sch, tensor_map, master_id, idx, prefix, post).
        nat (2147483647 - idx))") auto

declare LoopComputeAt_real_master.simps [simp del]

text \<open>The closing \<^verbatim>\<open>do ... while (--index >= 0)\<close> of \<^verbatim>\<open>LoopComputeAt\<close>.\<close>

function LoopComputeAt_attach :: "IRSchedule \<Rightarrow> Loop list \<Rightarrow> Loop list \<Rightarrow> int \<Rightarrow> outcome" where
  "LoopComputeAt_attach sch node_loops master_loops index =
     (case at_index node_loops index of
        Inl e \<Rightarrow> Fatal e sch
      | Inr n \<Rightarrow>
          (case at_index master_loops index of
             Inl e \<Rightarrow> Fatal e sch
           | Inr m \<Rightarrow>
               if extent n \<noteq> extent m then
                 (if index - 1 \<ge> 0
                  then LoopComputeAt_attach sch node_loops master_loops (index - 1)
                  else Done sch)
               else MergeLoops sch node_loops master_loops index))"
  by pat_completeness auto
termination
  by (relation "measure (\<lambda>(sch, node_loops, master_loops, index). nat (index + 1))") auto

declare LoopComputeAt_attach.simps [simp del]

definition LoopComputeAt_master_loops ::
  "ScheduleView \<Rightarrow> 'n Graph \<Rightarrow> IRSchedule \<Rightarrow> 'n \<Rightarrow> (string \<rightharpoonup> Tensor) \<Rightarrow> error + Loop list" where
  "LoopComputeAt_master_loops view g sch master tensor_map =
     (if op_pattern g master = kReduction then
        (case LoopComputeAt_real_master view sch tensor_map (node_data_id g master) 0 [] [] of
           Inl e \<Rightarrow> Inl e
         | Inr prefix \<Rightarrow>
             (case tensor_map (node_data_id g master @ prefix) of
                None \<Rightarrow> Inl EndIterator
              | Some tensor \<Rightarrow> Inr (GetLoops view sch (tensor_name tensor))))
      else Inr (GetLoops view sch (node_data_id g master)))"

text \<open>The first step: the buffer of a node that is not a group output becomes local.\<close>

definition LoopComputeAt_set_local :: "'n Graph \<Rightarrow> IRSchedule \<Rightarrow> 'n \<Rightarrow> 'n Group \<Rightarrow> IRSchedule" where
  "LoopComputeAt_set_local g sch node grp =
     (if node \<notin> output_nodes grp
      then sch @ [SetBuffer (node_data_id g node) ''local'' True]
      else sch)"

definition LoopComputeAt ::
  "ScheduleView \<Rightarrow> (IRSchedule \<Rightarrow> 'n \<Rightarrow> 'n \<Rightarrow> outcome) \<Rightarrow> 'n Graph \<Rightarrow> IRSchedule \<Rightarrow> 'n \<Rightarrow> 'n \<Rightarrow>
   'n Group \<Rightarrow> (string \<rightharpoonup> int list) \<Rightarrow> (string \<rightharpoonup> Tensor) \<Rightarrow> outcome" where
  "LoopComputeAt view reduce_to_reduce g sch node master grp shape_dict tensor_map =
     (let sch0 = LoopComputeAt_set_local g sch node grp
      in if op_pattern g node = kReduction
         then MergeReduceLoop view reduce_to_reduce g sch0 node master shape_dict tensor_map
         else if node = master then Done sch0
         else
           (let node_loops = GetLoops view sch0 (node_data_id g node)
            in case LoopComputeAt_master_loops view g sch0 master tensor_map of
                 Inl e \<Rightarrow> Fatal e sch0
               | Inr master_loops \<Rightarrow>
                   LoopComputeAt_attach sch0 node_loops master_loops
                     (int (min (length node_loops) (length master_loops)) - 1)))"

text \<open>
  The two bound checks of \<^verbatim>\<open>MergeLoops\<close>, as outcomes.
\<close>

fun MergeLoops_bound_failure :: "outcome \<Rightarrow> bool" where
  "MergeLoops_bound_failure (Fatal (CheckFailed msg) sch) =
     (msg = ''src.size() > index'' \<or> msg = ''dst.size() > index'')"
| "MergeLoops_bound_failure (Fatal e sch) = False"
| "MergeLoops_bound_failure (Done sch) = False"

section \<open>Synchronization inserter\<close>

text \<open>
  \<^verbatim>\<open>GetNodeDataSet\<close>: from the identifier of a node's data node to that data node, which
  stands here for the node that produced it (its \<^verbatim>\<open>source_node\<close>).
\<close>

definition GetNodeDataSet :: "'n Graph \<Rightarrow> 'n list \<Rightarrow> (string \<rightharpoonup> 'n)" where
  "GetNodeDataSet g nodes_set =
     foldl (\<lambda>node_data_set node. node_data_set(node_data_id g node \<mapsto> node)) Map.empty nodes_set"

text \<open>
  \<^verbatim>\<open>GetMaster\<close>: breadth-first through the inlined consumers, up to the first consumer that
  is not inlined. The inner loop returns that consumer, or the queue and the visited set.
\<close>

fun GetMaster_visit ::
  "'n set \<Rightarrow> 'n list \<Rightarrow> 'n list \<Rightarrow> 'n set \<Rightarrow> 'n + 'n list \<times> 'n set" where
  "GetMaster_visit nodes_inline [] candidates visited = Inr (candidates, visited)"
| "GetMaster_visit nodes_inline (consumer # rest) candidates visited =
     (if consumer \<in> visited then GetMaster_visit nodes_inline rest candidates visited
      else if consumer \<in> nodes_inline
        then GetMaster_visit nodes_inline rest (candidates @ [consumer]) (insert consumer visited)
      else Inl consumer)"

lemma GetMaster_visit_measure:
  "GetMaster_visit nodes_inline consumers candidates visited = Inr (candidates', visited') \<Longrightarrow>
   finite S \<Longrightarrow> set consumers \<subseteq> S \<Longrightarrow>
   (candidates' = candidates \<and> visited' = visited) \<or> card (S - visited') < card (S - visited)"
proof (induction consumers arbitrary: candidates visited)
  case Nil
  then show ?case by simp
next
  case (Cons consumer rest)
  show ?case
  proof (cases "consumer \<in> visited")
    case True
    then show ?thesis using Cons by simp
  next
    case False
    then have inl: "consumer \<in> nodes_inline" using Cons.prems(1) by (auto split: if_splits)
    then have run: "GetMaster_visit nodes_inline rest (candidates @ [consumer])
        (insert consumer visited) = Inr (candidates', visited')"
      using Cons.prems(1) False by simp
    have less: "card (S - insert consumer visited) < card (S - visited)"
      using False Cons.prems(2,3)
      by (intro psubset_card_mono) auto
    from Cons.IH [OF run Cons.prems(2)] Cons.prems(3)
    have "(candidates' = candidates @ [consumer] \<and> visited' = insert consumer visited) \<or>
        card (S - visited') < card (S - insert consumer visited)" by simp
    then show ?thesis using less by auto
  qed
qed

function GetMaster_loop ::
  "'n Graph \<Rightarrow> 'n set \<Rightarrow> 'n list \<Rightarrow> 'n list \<Rightarrow> 'n set \<Rightarrow> 'n option" where
  "GetMaster_loop g nodes_inline nodes_set candidates visited =
     (case candidates of
        [] \<Rightarrow> None
      | candidate # rest \<Rightarrow>
          (case GetMaster_visit nodes_inline
                  (GetConsumersInSet g candidate (set nodes_set)) rest visited of
             Inl consumer \<Rightarrow> Some consumer
           | Inr (candidates', visited') \<Rightarrow>
               GetMaster_loop g nodes_inline nodes_set candidates' visited'))"
  by pat_completeness auto
termination
proof (relation "inv_image (less_than <*lex*> less_than)
    (\<lambda>(g, nodes_inline, nodes_set, candidates, visited).
       (card (set nodes_set - visited), length candidates))", goal_cases)
  case 1
  show ?case by (intro wf_inv_image wf_lex_prod wf_less_than)
next
  case (2 g nodes_inline nodes_set candidates visited candidate rest x2 candidates' visited')
  have sub: "set (GetConsumersInSet g candidate (set nodes_set)) \<subseteq> set nodes_set"
    by (auto simp: GetConsumersInSet_def)
  have run: "GetMaster_visit nodes_inline (GetConsumersInSet g candidate (set nodes_set))
      rest visited = Inr (candidates', visited')"
    using 2 by simp
  from GetMaster_visit_measure [OF run _ sub]
  show ?case using 2(1) by auto
qed

declare GetMaster_loop.simps [simp del]

definition GetMaster :: "'n Graph \<Rightarrow> 'n \<Rightarrow> 'n set \<Rightarrow> 'n list \<Rightarrow> 'n option" where
  "GetMaster g node nodes_inline nodes_set = GetMaster_loop g nodes_inline nodes_set [node] {}"

text \<open>
  \<^verbatim>\<open>SyncThreadWithShared\<close>. The blocks of \<^verbatim>\<open>GetAllBlocks()\<close> are used through their names.
  \<^verbatim>\<open>sync_mark\<close> is kept as the sequence of its insertions: the code only tests membership.

  \<^verbatim>\<open>check_sync_mark\<close>: the condition of its loop is \<^verbatim>\<open>exprs_inorder.size()\<close>, so on a
  non-empty list nothing but the two returns of the body ends the scan.
\<close>

function check_sync_mark_scan :: "string list \<Rightarrow> string list \<Rightarrow> string \<Rightarrow> int \<Rightarrow> error + bool" where
  "check_sync_mark_scan exprs_inorder sync_mark m_id idx =
     (case at_index exprs_inorder idx of
        Inl e \<Rightarrow> Inl e
      | Inr block_name \<Rightarrow>
          if block_name \<in> set sync_mark then Inr False
          else if block_name = m_id then Inr True
          else check_sync_mark_scan exprs_inorder sync_mark m_id (idx + 1))"
  by pat_completeness auto
termination
  by (relation "measure (\<lambda>(exprs_inorder, sync_mark, m_id, idx).
        nat (int (length exprs_inorder) - idx))")
    (auto simp: at_index_def split: if_splits)

declare check_sync_mark_scan.simps [simp del]

definition check_sync_mark :: "string list \<Rightarrow> string list \<Rightarrow> int \<Rightarrow> string \<Rightarrow> error + bool" where
  "check_sync_mark exprs_inorder sync_mark start m_id =
     (if exprs_inorder = [] then Inr False
      else check_sync_mark_scan exprs_inorder sync_mark m_id (start + 1))"

text \<open>
  The shape a master is compared by: its output shape, or for a Reduction the shape of
  its first input.
\<close>

definition master_shape_of ::
  "'n Graph \<Rightarrow> 'n \<Rightarrow> (string \<rightharpoonup> int list) \<Rightarrow> error + int list" where
  "master_shape_of g master shape_dict =
     (case at_key shape_dict (node_data_id g master) of
        Inl e \<Rightarrow> Inl e
      | Inr master_shape \<Rightarrow>
          if op_pattern g master = kReduction then
            (case at_index (inlinks_in_order g master) 0 of
               Inl e \<Rightarrow> Inl e
             | Inr (input_id, source_node) \<Rightarrow> at_key shape_dict input_id)
          else Inr master_shape)"

text \<open>
  One round of the main loop, at a block index inside the list: either the loop goes on
  with \<^verbatim>\<open>sync_mark\<close> and the schedule as the round leaves them, or the function stops.
\<close>

definition SyncThreadWithShared_round ::
  "ScheduleView \<Rightarrow> 'n Graph \<Rightarrow> 'n set \<Rightarrow> 'n list \<Rightarrow> (string \<rightharpoonup> int list) \<Rightarrow> string list \<Rightarrow>
   (string \<rightharpoonup> 'n) \<Rightarrow> int \<Rightarrow> string list \<Rightarrow> IRSchedule \<Rightarrow>
   string list \<times> IRSchedule + string list \<times> outcome" where
  "SyncThreadWithShared_round view g nodes_inline nodes_set shape_dict exprs_inorder
       node_data_set idx sync_mark sch =
     (let block_name = exprs_inorder ! nat idx
      in case node_data_set block_name of
           None \<Rightarrow> Inl (sync_mark, sch)
         | Some node \<Rightarrow>
             (case at_key shape_dict block_name of
                Inl e \<Rightarrow> Inr (sync_mark, Fatal e sch)
              | Inr node_shape \<Rightarrow>
                  (case GetMaster g node nodes_inline nodes_set of
                     None \<Rightarrow> Inl (sync_mark, sch)
                   | Some master \<Rightarrow>
                       (case master_shape_of g master shape_dict of
                          Inl e \<Rightarrow> Inr (sync_mark, Fatal e sch)
                        | Inr master_shape \<Rightarrow>
                            if accumulate_multiplies node_shape
                                 = accumulate_multiplies master_shape
                            then Inl (sync_mark, sch)
                            else
                              (let sch1 = sch @ [SetBuffer block_name ''shared'' True]
                               in case check_sync_mark exprs_inorder sync_mark idx
                                         (node_data_id g master) of
                                    Inl e \<Rightarrow> Inr (sync_mark, Fatal e sch1)
                                  | Inr False \<Rightarrow> Inl (sync_mark, sch1)
                                  | Inr True \<Rightarrow>
                                      (case GetLoops view sch1 (node_data_id g master) of
                                         [] \<Rightarrow> Inr (sync_mark, Fatal IndexOutOfBounds sch1)
                                       | l # ls \<Rightarrow>
                                           Inl (sync_mark @ [node_data_id g master],
                                                sch1 @ [SyncThreads (last (l # ls)) False])))))))"

text \<open>
  The main loop \<^verbatim>\<open>for (int idx = 0; idx < exprs_inorder.size() - 1; ++idx)\<close>, on a
  non-empty block list. It returns \<^verbatim>\<open>sync_mark\<close> with the outcome.
\<close>

function SyncThreadWithShared_loop ::
  "ScheduleView \<Rightarrow> 'n Graph \<Rightarrow> 'n set \<Rightarrow> 'n list \<Rightarrow> (string \<rightharpoonup> int list) \<Rightarrow> string list \<Rightarrow>
   (string \<rightharpoonup> 'n) \<Rightarrow> int \<Rightarrow> string list \<Rightarrow> IRSchedule \<Rightarrow> string list \<times> outcome" where
  "SyncThreadWithShared_loop view g nodes_inline nodes_set shape_dict exprs_inorder
       node_data_set idx sync_mark sch =
     (if 0 \<le> idx \<and> idx < int (length exprs_inorder) - 1 then
        (case SyncThreadWithShared_round view g nodes_inline nodes_set shape_dict
                exprs_inorder node_data_set idx sync_mark sch of
           Inr stop \<Rightarrow> stop
         | Inl (sync_mark', sch') \<Rightarrow>
             SyncThreadWithShared_loop view g nodes_inline nodes_set shape_dict exprs_inorder
               node_data_set (idx + 1) sync_mark' sch')
      else (sync_mark, Done sch))"
  by pat_completeness auto
termination
  by (relation "measure (\<lambda>(view, g, nodes_inline, nodes_set, shape_dict, exprs_inorder,
        node_data_set, idx, sync_mark, sch). nat (int (length exprs_inorder) - idx))") auto

declare SyncThreadWithShared_loop.simps [simp del]

text \<open>
  With an empty block list the bound \<^verbatim>\<open>exprs_inorder.size() - 1\<close> of the main loop wraps
  around and the first round reads \<^verbatim>\<open>exprs_inorder[0]\<close>.
\<close>

definition SyncThreadWithShared_marks ::
  "ScheduleView \<Rightarrow> 'n Graph \<Rightarrow> IRSchedule \<Rightarrow> 'n set \<Rightarrow> 'n list \<Rightarrow> (string \<rightharpoonup> int list) \<Rightarrow>
   string list \<times> outcome" where
  "SyncThreadWithShared_marks view g sch nodes_inline nodes_set shape_dict =
     (let exprs_inorder = GetAllBlocks view sch;
          node_data_set = GetNodeDataSet g nodes_set
      in if exprs_inorder = [] then ([], Fatal IndexOutOfBounds sch)
         else SyncThreadWithShared_loop view g nodes_inline nodes_set shape_dict exprs_inorder
                node_data_set 0 [] sch)"

text \<open>The barriers of a schedule state, and the state an outcome carries.\<close>

fun is_SyncThreads :: "ScheduleOp \<Rightarrow> bool" where
  "is_SyncThreads (SyncThreads loop flag) = True"
| "is_SyncThreads other = False"

fun schedule_of :: "outcome \<Rightarrow> IRSchedule" where
  "schedule_of (Done sch) = sch"
| "schedule_of (Fatal e sch) = sch"

definition SyncThreadWithShared ::
  "ScheduleView \<Rightarrow> 'n Graph \<Rightarrow> IRSchedule \<Rightarrow> 'n set \<Rightarrow> 'n list \<Rightarrow> (string \<rightharpoonup> int list) \<Rightarrow>
   outcome" where
  "SyncThreadWithShared view g sch nodes_inline nodes_set shape_dict =
     snd (SyncThreadWithShared_marks view g sch nodes_inline nodes_set shape_dict)"

text \<open>
  What a run of \<^verbatim>\<open>SyncThreadWithShared\<close> has done is read off the operations it appended
  to the schedule. In one round \<^verbatim>\<open>SetBuffer\<close> is applied to the block of the node and, if
  the scan says so, \<^verbatim>\<open>SyncThreads\<close> right after it: a barrier event is a \<^verbatim>\<open>SetBuffer\<close>
  directly followed by a \<^verbatim>\<open>SyncThreads\<close>, and it consists of the name of the block made
  shared, the schedule the loops were read in, and the loop the barrier was put after.
\<close>

definition inserted :: "IRSchedule \<Rightarrow> outcome \<Rightarrow> ScheduleOp list" where
  "inserted sch out = drop (length sch) (schedule_of out)"

fun shared_then_barrier :: "ScheduleOp \<Rightarrow> ScheduleOp \<Rightarrow> (string \<times> Loop) option" where
  "shared_then_barrier (SetBuffer block_name scope flag) (SyncThreads loop all_threads) =
     Some (block_name, loop)"
| "shared_then_barrier op1 op2 = None"

fun barrier_events :: "IRSchedule \<Rightarrow> ScheduleOp list \<Rightarrow> (string \<times> IRSchedule \<times> Loop) list" where
  "barrier_events applied (op1 # op2 # rest) =
     (case shared_then_barrier op1 op2 of
        Some (block_name, loop) \<Rightarrow> [(block_name, applied @ [op1], loop)]
      | None \<Rightarrow> [])
     @ barrier_events (applied @ [op1]) (op2 # rest)"
| "barrier_events applied ops = []"

text \<open>
  The master of the node a block belongs to, found as the main loop finds it, and the
  test that the loop of a barrier event is the last loop of that master.
\<close>

definition master_of_block :: "'n Graph \<Rightarrow> 'n set \<Rightarrow> 'n list \<Rightarrow> string \<Rightarrow> 'n option" where
  "master_of_block g nodes_inline nodes_set block_name =
     (case GetNodeDataSet g nodes_set block_name of
        None \<Rightarrow> None
      | Some node \<Rightarrow> GetMaster g node nodes_inline nodes_set)"

definition after_last_loop ::
  "ScheduleView \<Rightarrow> 'n Graph \<Rightarrow> 'n set \<Rightarrow> 'n list \<Rightarrow> string \<times> IRSchedule \<times> Loop \<Rightarrow> bool" where
  "after_last_loop view g nodes_inline nodes_set event =
     (case event of (block_name, applied, loop) \<Rightarrow>
        (case master_of_block g nodes_inline nodes_set block_name of
           None \<Rightarrow> False
         | Some master \<Rightarrow>
             GetLoops view applied (node_data_id g master) \<noteq> [] \<and>
             loop = last (GetLoops view applied (node_data_id g master))))"

definition event_master :: "'n Graph \<Rightarrow> 'n set \<Rightarrow> 'n list \<Rightarrow> string \<times> IRSchedule \<times> Loop \<Rightarrow> 'n option" where
  "event_master g nodes_inline nodes_set event =
     (case event of (block_name, applied, loop) \<Rightarrow>
        master_of_block g nodes_inline nodes_set block_name)"

definition SyncThreadWithShared_barriers ::
  "ScheduleView \<Rightarrow> 'n Graph \<Rightarrow> IRSchedule \<Rightarrow> 'n set \<Rightarrow> 'n list \<Rightarrow> (string \<rightharpoonup> int list) \<Rightarrow>
   (string \<times> IRSchedule \<times> Loop) list" where
  "SyncThreadWithShared_barriers view g sch nodes_inline nodes_set shape_dict =
     barrier_events sch
       (inserted sch (SyncThreadWithShared view g sch nodes_inline nodes_set shape_dict))"

text \<open>
  The invariant of the main loop: the schedule extends the one the function was called
  with; \<^verbatim>\<open>sync_mark\<close> holds no identifier twice and lists the identifiers of the masters of
  the barrier events, in their order; every inserted barrier belongs to an event, and is
  after the last loop of the master.
\<close>

definition barriers_inv ::
  "ScheduleView \<Rightarrow> 'n Graph \<Rightarrow> 'n set \<Rightarrow> 'n list \<Rightarrow> IRSchedule \<Rightarrow> string list \<Rightarrow> IRSchedule \<Rightarrow> bool" where
  "barriers_inv view g nodes_inline nodes_set sch sync_mark cur \<longleftrightarrow>
     take (length sch) cur = sch \<and> distinct sync_mark \<and>
     (let events = barrier_events sch (drop (length sch) cur)
      in map (\<lambda>event. map_option (node_data_id g) (event_master g nodes_inline nodes_set event))
           events = map Some sync_mark \<and>
         length (filter is_SyncThreads (drop (length sch) cur)) = length events \<and>
         list_all (after_last_loop view g nodes_inline nodes_set) events)"

section \<open>Examples\<close>

text \<open>
  A group of three operators: node \<open>0\<close> feeds a reduction \<open>1\<close> and an element-wise
  operator \<open>2\<close>; both are outputs, and \<open>2\<close> is the virtual consumer of \<open>1\<close>.
\<close>

definition ex_graph :: "nat Graph" where
  "ex_graph = \<lparr>
     op_name = (\<lambda>n. if n = 1 then ''reduce_sum'' else ''exp''),
     op_pattern = (\<lambda>n. if n = 1 then kReduction else kElementWise),
     node_data_id = (\<lambda>n. if n = 0 then ''var_0'' else if n = 1 then ''var_1'' else ''var_2''),
     data_outlinks = (\<lambda>n. if n = 0 then [1, 2] else []),
     inlinks_in_order = (\<lambda>n. if n = 0 then [(''x'', None)] else [(''var_0'', Some 0)]),
     attr_dim = (\<lambda>n. if n = 1 then Some [1] else None) \<rparr>"

definition ex_group :: "nat Group" where
  "ex_group = \<lparr> nodes = [0, 1, 2], output_nodes = {1, 2}, op_pattern_kind = kReduction \<rparr>"

definition ex_virtual_consumers :: "nat \<rightharpoonup> nat" where
  "ex_virtual_consumers = [1 \<mapsto> 2]"

text \<open>
  A view for the examples: the loops of the three blocks, whatever was applied, and the
  blocks in the order of the nodes.
\<close>

definition ex_view :: ScheduleView where
  "ex_view = \<lparr>
     GetLoops = (\<lambda>sch block_name.
       if block_name = ''var_0'' then [\<lparr>loop_id = 0, extent = 4\<rparr>, \<lparr>loop_id = 1, extent = 8\<rparr>]
       else if block_name = ''var_2'' then [\<lparr>loop_id = 2, extent = 4\<rparr>, \<lparr>loop_id = 3, extent = 16\<rparr>]
       else [\<lparr>loop_id = 4, extent = 2\<rparr>, \<lparr>loop_id = 5, extent = 512\<rparr>]),
     HasBlock = (\<lambda>sch block_name. True),
     GetAllBlocks = (\<lambda>sch. [''var_0'', ''var_1'', ''var_2'']) \<rparr>"

definition ex_tensor_map :: "string \<rightharpoonup> Tensor" where
  "ex_tensor_map = [''var_1'' \<mapsto> \<lparr>tensor_name = ''var_1''\<rparr>]"

definition ex_reduce_to_reduce :: "IRSchedule \<Rightarrow> nat \<Rightarrow> nat \<Rightarrow> outcome" where
  "ex_reduce_to_reduce sch node master = Done sch"

definition ex_shape_dict :: "string \<rightharpoonup> int list" where
  "ex_shape_dict = [''var_0'' \<mapsto> [4, 8], ''var_1'' \<mapsto> [4], ''var_2'' \<mapsto> [4, 8]]"

text \<open>
  A group for the synchronization inserter: the nodes \<open>0\<close> and \<open>3\<close>, of four elements
  each, both feed node \<open>2\<close>, of thirty-two.
  Each block has loops of its own; the view lists the blocks in a given
  order.
\<close>

definition ex_sync_graph :: "nat Graph" where
  "ex_sync_graph = \<lparr>
     op_name = (\<lambda>n. if n = 2 then ''elementwise_add'' else ''exp''),
     op_pattern = (\<lambda>n. if n = 2 then kBroadcast else kElementWise),
     node_data_id = (\<lambda>n. if n = 0 then ''var_0'' else if n = 3 then ''var_3'' else ''var_2''),
     data_outlinks = (\<lambda>n. if n = 2 then [] else [2]),
     inlinks_in_order = (\<lambda>n. if n = 2 then [(''var_0'', Some 0), (''var_3'', Some 3)]
                              else [(''x'', None)]),
     attr_dim = (\<lambda>n. None) \<rparr>"

definition ex_sync_shape_dict :: "string \<rightharpoonup> int list" where
  "ex_sync_shape_dict = [''var_0'' \<mapsto> [4], ''var_3'' \<mapsto> [4], ''var_2'' \<mapsto> [4, 8]]"

definition ex_sync_view :: "string list \<Rightarrow> ScheduleView" where
  "ex_sync_view blocks = \<lparr>
     GetLoops = (\<lambda>sch block_name.
       if block_name = ''var_2'' then [\<lparr>loop_id = 2, extent = 4\<rparr>, \<lparr>loop_id = 3, extent = 8\<rparr>]
       else if block_name = ''var_3'' then [\<lparr>loop_id = 1, extent = 4\<rparr>]
       else [\<lparr>loop_id = 0, extent = 4\<rparr>]),
     HasBlock = (\<lambda>sch block_name. True),
     GetAllBlocks = (\<lambda>sch. blocks) \<rparr>"

text \<open>
  A group of five operators: node \<open>0\<close>, of eight elements, feeds the element-wise
  operators \<open>1\<close> and \<open>2\<close>, of thirty-two each; \<open>1\<close> feeds the reduction \<open>3\<close> and \<open>2\<close> feeds
  the output \<open>4\<close>.
\<close>

definition ex_inline_graph :: "nat Graph" where
  "ex_inline_graph = \<lparr>
     op_name = (\<lambda>n. if n = 3 then ''reduce_sum'' else if n = 0 then ''broadcast_to'' else ''exp''),
     op_pattern = (\<lambda>n. if n = 3 then kReduction else if n = 0 then kBroadcast else kElementWise),
     node_data_id = (\<lambda>n. if n = 0 then ''var_0'' else if n = 1 then ''var_1''
       else if n = 2 then ''var_2'' else if n = 3 then ''var_3'' else ''var_4''),
     data_outlinks = (\<lambda>n. if n = 0 then [1, 2] else if n = 1 then [3] else if n = 2 then [4]
       else []),
     inlinks_in_order = (\<lambda>n. if n = 0 then [(''x'', None)]
       else if n = 1 then [(''var_0'', Some 0)] else if n = 2 then [(''var_0'', Some 0)]
       else if n = 3 then [(''var_1'', Some 1)] else if n = 4 then [(''var_2'', Some 2)]
       else []),
     attr_dim = (\<lambda>n. if n = 3 then Some [1] else None) \<rparr>"

definition ex_inline_group :: "nat Group" where
  "ex_inline_group =
     \<lparr> nodes = [0, 1, 2, 3, 4], output_nodes = {3, 4}, op_pattern_kind = kReduction \<rparr>"

definition ex_inline_shape_dict :: "string \<rightharpoonup> int list" where
  "ex_inline_shape_dict = [''var_0'' \<mapsto> [8], ''var_1'' \<mapsto> [4, 8], ''var_2'' \<mapsto> [4, 8],
     ''var_3'' \<mapsto> [4], ''var_4'' \<mapsto> [4, 8]]"

chapter \<open>Properties\<close>

section \<open>Ordering builder\<close>

lemma position_append_in: "x \<in> set xs \<Longrightarrow> position (xs @ ys) x = position xs x"
  by (induction xs) auto

lemma position_append_new: "x \<notin> set xs \<Longrightarrow> position (xs @ [x]) x = length xs"
  by (induction xs) auto

lemma position_less_length: "x \<in> set xs \<Longrightarrow> position xs x < length xs"
  by (induction xs) auto

lemma nth_position: "x \<in> set xs \<Longrightarrow> xs ! position xs x = x"
  by (induction xs) auto

lemma cant_be_erase_iff:
  "list_ex (\<lambda>consumer. consumer \<in> S) (FindConsumers g node S vc) \<longleftrightarrow> blocked g vc node S"
  by (auto simp: blocked_def FindConsumers_def GetConsumersInSet_def consumer_edge_def list_ex_iff Let_def
      split: option.splits)

lemma TopologicalOrder_pass_keep:
  "blocked g vc node (set ns) \<Longrightarrow>
     TopologicalOrder_pass g vc (node # rest) (order, ns)
       = TopologicalOrder_pass g vc rest (order, ns)"
  by (simp add: cant_be_erase_iff Let_def)

lemma TopologicalOrder_pass_erase:
  "\<not> blocked g vc node (set ns) \<Longrightarrow>
     TopologicalOrder_pass g vc (node # rest) (order, ns)
       = TopologicalOrder_pass g vc rest (order @ [node], removeAll node ns)"
  by (simp add: cant_be_erase_iff Let_def)

lemma order_inv_erase:
  assumes inv: "order_inv g vc N (order, ns)"
    and node: "node \<in> set ns"
    and sink: "\<not> blocked g vc node (set ns)"
  shows "order_inv g vc N (order @ [node], removeAll node ns)"
proof -
  have d: "distinct order" and u: "set order \<union> set ns = N" and i: "set order \<inter> set ns = {}"
    and e: "\<And>p c. p \<in> set order \<Longrightarrow> c \<in> N \<Longrightarrow> consumer_edge g vc p c \<Longrightarrow>
        c \<in> set order \<and> position order c < position order p"
    using inv by (auto simp: order_inv_def)
  have fresh: "node \<notin> set order" using node i by auto
  have "c \<in> set (order @ [node]) \<and> position (order @ [node]) c < position (order @ [node]) p"
    if p: "p \<in> set (order @ [node])" and c: "c \<in> N" and pc: "consumer_edge g vc p c" for p c
  proof (cases "p = node")
    case True
    then have "c \<notin> set ns" using sink pc by (auto simp: blocked_def)
    then have cin: "c \<in> set order" using c u by auto
    then have "position (order @ [node]) c < length order"
      by (simp add: position_append_in position_less_length)
    then show ?thesis using cin True fresh by (simp add: position_append_new)
  next
    case False
    then have pin: "p \<in> set order" using p by simp
    from e [OF pin c pc] show ?thesis using pin by (simp add: position_append_in)
  qed
  then show ?thesis
    using d u i fresh node unfolding order_inv_def fst_conv snd_conv
    by (intro conjI allI impI) auto
qed

lemma TopologicalOrder_pass_inv:
  "order_inv g vc N (order, ns) \<Longrightarrow> distinct l \<Longrightarrow> set l \<subseteq> set ns \<Longrightarrow>
     order_inv g vc N (TopologicalOrder_pass g vc l (order, ns))"
proof (induction l arbitrary: order ns)
  case Nil
  then show ?case by simp
next
  case (Cons node rest)
  show ?case
  proof (cases "blocked g vc node (set ns)")
    case True
    have "order_inv g vc N (TopologicalOrder_pass g vc rest (order, ns))"
      using Cons.IH [OF Cons.prems(1)] Cons.prems(2,3) by simp
    then show ?thesis unfolding TopologicalOrder_pass_keep [OF True] .
  next
    case False
    have "order_inv g vc N (order @ [node], removeAll node ns)"
      using order_inv_erase [OF Cons.prems(1) _ False] Cons.prems(3) by simp
    moreover have "set rest \<subseteq> set (removeAll node ns)"
      using Cons.prems(2,3) by auto
    ultimately have "order_inv g vc N
        (TopologicalOrder_pass g vc rest (order @ [node], removeAll node ns))"
      using Cons.IH Cons.prems(2) by simp
    then show ?thesis unfolding TopologicalOrder_pass_erase [OF False] .
  qed
qed

lemma TopologicalOrder_pass_subset:
  "set (snd (TopologicalOrder_pass g vc l st)) \<subseteq> set (snd st)"
proof (induction l arbitrary: st)
  case Nil
  then show ?case by simp
next
  case (Cons node rest)
  obtain order ns where st: "st = (order, ns)" by (cases st)
  show ?case
    using Cons.IH [of "(order, ns)"] Cons.IH [of "(order @ [node], removeAll node ns)"]
    by (auto simp: st Let_def)
qed

lemma TopologicalOrder_pass_removes:
  "s \<in> set l \<Longrightarrow> \<not> blocked g vc s (set ns) \<Longrightarrow>
     s \<notin> set (snd (TopologicalOrder_pass g vc l (order, ns)))"
proof (induction l arbitrary: order ns)
  case Nil
  then show ?case by simp
next
  case (Cons node rest)
  show ?case
  proof (cases "blocked g vc node (set ns)")
    case True
    then have "s \<noteq> node" using Cons.prems(2) by auto
    then have "s \<in> set rest" using Cons.prems(1) by simp
    then have "s \<notin> set (snd (TopologicalOrder_pass g vc rest (order, ns)))"
      using Cons.IH Cons.prems(2) by blast
    then show ?thesis unfolding TopologicalOrder_pass_keep [OF True] .
  next
    case False
    have eq: "TopologicalOrder_pass g vc (node # rest) (order, ns)
        = TopologicalOrder_pass g vc rest (order @ [node], removeAll node ns)"
      using False by (rule TopologicalOrder_pass_erase)
    show ?thesis
    proof (cases "s = node")
      case True
      have "set (snd (TopologicalOrder_pass g vc rest (order @ [node], removeAll node ns)))
          \<subseteq> set (removeAll node ns)"
        using TopologicalOrder_pass_subset [of g vc rest "(order @ [node], removeAll node ns)"]
        by simp
      then show ?thesis using True eq by auto
    next
      case neq: False
      then have "s \<in> set rest" using Cons.prems(1) by simp
      moreover have "\<not> blocked g vc s (set (removeAll node ns))"
        using Cons.prems(2) by (auto simp: blocked_def)
      ultimately have "s \<notin> set (snd (TopologicalOrder_pass g vc rest
          (order @ [node], removeAll node ns)))"
        using Cons.IH by blast
      then show ?thesis unfolding eq .
    qed
  qed
qed

lemma exists_sink:
  assumes ac: "acyclic (group_edges g vc N)" and fin: "finite N"
    and sub: "S \<subseteq> N" and ne: "S \<noteq> {}"
  shows "\<exists>s\<in>S. \<not> blocked g vc s S"
proof -
  have "group_edges g vc N \<subseteq> N \<times> N" by (auto simp: group_edges_def)
  then have "finite (group_edges g vc N)" using fin by (meson finite_SigmaI finite_subset)
  then have "wf ((group_edges g vc N)\<inverse>)"
    using ac by (simp add: finite_acyclic_wf_converse)
  then obtain s where s: "s \<in> S" and min: "\<And>y. (y, s) \<in> (group_edges g vc N)\<inverse> \<Longrightarrow> y \<notin> S"
    using ne by (metis wfE_min ex_in_conv)
  have "\<not> blocked g vc s S"
  proof
    assume "blocked g vc s S"
    then have "\<exists>c. consumer_edge g vc s c \<and> c \<in> S" by (simp add: blocked_def)
    then obtain c where c: "consumer_edge g vc s c" "c \<in> S" by blast
    then have "(s, c) \<in> group_edges g vc N" using s sub by (auto simp: group_edges_def)
    then show False using min [of c] c(2) by simp
  qed
  then show ?thesis using s by blast
qed

lemma TopologicalOrder_loop_terminates:
  assumes ac: "acyclic (group_edges g vc N)" and fin: "finite N"
  shows "set ns \<subseteq> N \<Longrightarrow> \<exists>y. TopologicalOrder_loop g vc (order, ns) = Some y"
proof (induction "card (set ns)" arbitrary: order ns rule: less_induct)
  case less
  show ?case
  proof (cases "ns = []")
    case True
    then show ?thesis by (simp add: TopologicalOrder_loop.simps)
  next
    case False
    then have "set ns \<noteq> {}" by simp
    from exists_sink [OF ac fin less.prems this]
    obtain s where s: "s \<in> set ns" "\<not> blocked g vc s (set ns)" by blast
    obtain order' ns' where st': "TopologicalOrder_pass g vc (sort (remdups ns)) (order, ns) = (order', ns')"
      by (cases "TopologicalOrder_pass g vc (sort (remdups ns)) (order, ns)")
    have sub: "set ns' \<subseteq> set ns"
      using TopologicalOrder_pass_subset [of g vc "sort (remdups ns)" "(order, ns)"] st' by simp
    have "s \<notin> set ns'"
      using TopologicalOrder_pass_removes [of s "sort (remdups ns)" g vc ns order] s st' by simp
    then have "set ns' \<subset> set ns" using sub s(1) by blast
    then have "card (set ns') < card (set ns)" by (simp add: psubset_card_mono)
    moreover have "set ns' \<subseteq> N" using sub less.prems by blast
    ultimately obtain y where "TopologicalOrder_loop g vc (order', ns') = Some y"
      using less.hyps by blast
    then show ?thesis using False st' by (simp add: TopologicalOrder_loop.simps [of g vc "(order, ns)"])
  qed
qed

lemma TopologicalOrder_loop_inv:
  assumes ret: "TopologicalOrder_loop g vc st = Some y"
  shows "order_inv g vc N st \<longrightarrow> order_inv g vc N (y, [])"
proof (rule TopologicalOrder_loop.raw_induct
    [where P = "\<lambda>g vc st y. order_inv g vc N st \<longrightarrow> order_inv g vc N (y, [])", OF _ ret])
  fix loop :: "'a Graph \<Rightarrow> ('a \<rightharpoonup> 'a) \<Rightarrow> 'a list \<times> 'a list \<Rightarrow> 'a list option"
  fix g vc st y
  assume IH: "\<And>g vc st y. loop g vc st = Some y \<Longrightarrow>
      order_inv g vc N st \<longrightarrow> order_inv g vc N (y, [])"
  assume body: "(if snd st = [] then Some (fst st)
      else loop g vc (TopologicalOrder_pass g vc (sort (remdups (snd st))) st)) = Some y"
  obtain order ns where st: "st = (order, ns)" by (cases st)
  show "order_inv g vc N st \<longrightarrow> order_inv g vc N (y, [])"
  proof (cases "ns = []")
    case True
    then show ?thesis using body st by auto
  next
    case False
    then have run: "loop g vc (TopologicalOrder_pass g vc (sort (remdups ns)) (order, ns)) = Some y"
      using body st by simp
    show ?thesis
    proof
      assume inv: "order_inv g vc N st"
      have "order_inv g vc N (TopologicalOrder_pass g vc (sort (remdups ns)) (order, ns))"
        using inv st by (intro TopologicalOrder_pass_inv) simp_all
      then show "order_inv g vc N (y, [])" using IH [OF run] by simp
    qed
  qed
qed

lemma order_inv_init: "order_inv g vc (set ns) ([], ns)"
  by (simp add: order_inv_def)

text \<open>
  Claim C1, as the code has it. \<^verbatim>\<open>TopologicalOrder\<close> peels off the nodes none of whose
  consumers is left and appends them to the result, so the result lists consumers first:
  when the real and virtual edges inside the group have no cycle, the function returns a
  sequence holding every node of the group exactly once in which, for every real or
  virtual producer-to-consumer edge inside the group, the consumer stands strictly
  before the producer.
\<close>

theorem TopologicalOrder_consumers_first:
  assumes "acyclic (group_edges g vc (set (nodes grp)))"
  shows "\<exists>nodes_in_order. TopologicalOrder g grp vc = Some nodes_in_order \<and>
     distinct nodes_in_order \<and> set nodes_in_order = set (nodes grp) \<and>
     (\<forall>producer consumer. producer \<in> set (nodes grp) \<and> consumer \<in> set (nodes grp) \<and>
          consumer_edge g vc producer consumer \<longrightarrow>
        position nodes_in_order consumer < position nodes_in_order producer)"
proof -
  obtain y where y: "TopologicalOrder_loop g vc ([], nodes grp) = Some y"
    using TopologicalOrder_loop_terminates [OF assms, of "nodes grp" "[]"] by auto
  have "order_inv g vc (set (nodes grp)) (y, [])"
    using TopologicalOrder_loop_inv [OF y, of "set (nodes grp)"] order_inv_init by blast
  then show ?thesis using y by (auto simp: order_inv_def TopologicalOrder_def)
qed


lemma ex_group_edges:
  "group_edges ex_graph ex_virtual_consumers (set (nodes ex_group)) = {(0, 1), (0, 2), (1, 2)}"
  by (auto simp: group_edges_def consumer_edge_def ex_graph_def ex_group_def
      ex_virtual_consumers_def split: if_splits)

lemma ex_group_acyclic:
  "acyclic (group_edges ex_graph ex_virtual_consumers (set (nodes ex_group)))"
proof -
  have "{(0::nat, 1::nat), (0, 2), (1, 2)} \<subseteq> {(a, b). a < b}" by auto
  moreover have "acyclic {(a :: nat, b). a < b}"
    by (rule wf_acyclic) (rule wf_less)
  ultimately show ?thesis unfolding ex_group_edges by (rule acyclic_subset [rotated])
qed

lemma ex_group_order:
  "TopologicalOrder ex_graph ex_group ex_virtual_consumers = Some [2, 1, 0]"
  by (simp add: TopologicalOrder_def TopologicalOrder_loop.simps ex_graph_def ex_group_def
      ex_virtual_consumers_def FindConsumers_def GetConsumersInSet_def)

theorem TopologicalOrder_consumers_first_witness:
  "acyclic (group_edges ex_graph ex_virtual_consumers (set (nodes ex_group))) \<and>
   TopologicalOrder ex_graph ex_group ex_virtual_consumers = Some [2, 1, 0] \<and>
   consumer_edge ex_graph ex_virtual_consumers 1 2 \<and>
   position [2, 1, 0 :: nat] 2 < position [2, 1, 0 :: nat] 1"
proof -
  obtain nodes_in_order where
    ret: "TopologicalOrder ex_graph ex_group ex_virtual_consumers = Some nodes_in_order" and
    ord: "\<forall>producer consumer. producer \<in> set (nodes ex_group) \<and> consumer \<in> set (nodes ex_group) \<and>
          consumer_edge ex_graph ex_virtual_consumers producer consumer \<longrightarrow>
        position nodes_in_order consumer < position nodes_in_order producer"
    using TopologicalOrder_consumers_first [OF ex_group_acyclic] by blast
  have eq: "nodes_in_order = [2, 1, 0]" using ret ex_group_order by simp
  have e: "consumer_edge ex_graph ex_virtual_consumers 1 2"
    by (simp add: consumer_edge_def ex_virtual_consumers_def)
  have "position nodes_in_order 2 < position nodes_in_order 1"
    using ord e by (simp add: ex_group_def)
  then show ?thesis using ex_group_acyclic ex_group_order e eq by simp
qed

text \<open>
  C1 as stated, producers before consumers, fails on the example group: node \<open>1\<close> is a
  real consumer of node \<open>0\<close>, and the returned sequence is \<open>[2, 1, 0]\<close>.
\<close>

theorem TopologicalOrder_counterexample:
  "TopologicalOrder ex_graph ex_group ex_virtual_consumers = Some [2, 1, 0] \<and>
   0 \<in> set (nodes ex_group) \<and> 1 \<in> set (nodes ex_group) \<and>
   consumer_edge ex_graph ex_virtual_consumers 0 1 \<and>
   \<not> position [2, 1, 0 :: nat] 0 < position [2, 1, 0 :: nat] 1"
  by (simp add: TopologicalOrder_def TopologicalOrder_loop.simps ex_graph_def ex_group_def
      ex_virtual_consumers_def FindConsumers_def GetConsumersInSet_def consumer_edge_def)

section \<open>Arithmetic of the running products\<close>

lemma int32_id: "- 2147483648 \<le> x \<Longrightarrow> x < 2147483648 \<Longrightarrow> int32 x = x"
  by (simp add: int32_def)

lemma prod_list_pos: "list_all (\<lambda>d. 0 < d) xs \<Longrightarrow> 0 < prod_list (xs :: int list)"
  by (induction xs) simp_all

lemma prod_list_ge1: "list_all (\<lambda>d. 0 < d) xs \<Longrightarrow> 1 \<le> prod_list (xs :: int list)"
  using prod_list_pos [of xs] by simp

lemma le_mult_pos_right:
  fixes a b :: int
  assumes "0 < a" "1 \<le> b"
  shows "a \<le> a * b"
  using assms mult_left_mono [of 1 b a] by simp

lemma mul_dims_from_prod:
  assumes "list_all (\<lambda>d. 0 < d) shape"
    and "0 < acc"
    and "acc * prod_list (drop k shape) < 2147483648"
  shows "mul_dims_from shape (int k) acc = acc * prod_list (drop k shape)"
  using assms
proof (induction "length shape - k" arbitrary: k acc)
  case 0
  then have "drop k shape = []" by simp
  moreover have "\<not> int k < int (length shape)" using 0 by simp
  ultimately show ?case by (simp add: mul_dims_from.simps [of shape "int k"])
next
  case (Suc n)
  then have klt: "k < length shape" by simp
  then have dr: "drop k shape = shape ! k # drop (Suc k) shape"
    by (simp add: Cons_nth_drop_Suc)
  have posk: "0 < shape ! k"
    using Suc.prems(1) klt by (simp add: list_all_length)
  have posrest: "list_all (\<lambda>d. 0 < d) (drop (Suc k) shape)"
    using Suc.prems(1) by (simp add: list_all_iff) (meson in_set_dropD)
  have rest1: "1 \<le> prod_list (drop (Suc k) shape)"
    by (rule prod_list_ge1 [OF posrest])
  have bound: "acc * shape ! k * prod_list (drop (Suc k) shape) < 2147483648"
    using Suc.prems(3) dr by (simp add: mult.assoc)
  have accpos: "0 < acc * shape ! k"
    using Suc.prems(2) posk by simp
  have "acc * shape ! k \<le> acc * shape ! k * prod_list (drop (Suc k) shape)"
    by (rule le_mult_pos_right [OF accpos rest1])
  then have small: "acc * shape ! k < 2147483648"
    using bound by linarith
  have m: "mul32 acc (shape ! k) = acc * shape ! k"
    unfolding mul32_def using accpos small by (intro int32_id) simp_all
  have step: "mul_dims_from shape (int k) acc
      = mul_dims_from shape (int (Suc k)) (acc * shape ! k)"
    using klt m by (simp add: mul_dims_from.simps [of shape "int k"] add.commute)
  have "mul_dims_from shape (int (Suc k)) (acc * shape ! k)
      = acc * shape ! k * prod_list (drop (Suc k) shape)"
    using Suc.hyps(1) [of "Suc k" "acc * shape ! k"] Suc.hyps(2) Suc.prems(1) accpos bound
    by simp
  then show ?case using step dr by (simp add: mult.assoc)
qed

lemma prod_list_drop_le:
  assumes "list_all (\<lambda>d. 0 < d) (shape :: int list)"
  shows "prod_list (drop k shape) \<le> prod_list shape"
proof -
  have split: "prod_list shape = prod_list (take k shape) * prod_list (drop k shape)"
    by (metis append_take_drop_id prod_list.append)
  have "list_all (\<lambda>d. 0 < d) (take k shape)" "list_all (\<lambda>d. 0 < d) (drop k shape)"
    using assms by (simp_all add: list_all_iff) (meson in_set_takeD, meson in_set_dropD)
  then have "1 \<le> prod_list (take k shape)" "0 < prod_list (drop k shape)"
    by (simp_all add: prod_list_ge1 prod_list_pos)
  then have "prod_list (drop k shape) \<le> prod_list (drop k shape) * prod_list (take k shape)"
    by (intro le_mult_pos_right)
  then show ?thesis using split by (simp add: mult.commute)
qed

lemma mul_dims_from_fits:
  assumes "shape_fits shape"
  shows "mul_dims_from shape (int k) 1 = prod_list (drop k shape)"
proof -
  have pos: "list_all (\<lambda>d. 0 < d) shape" and lt: "prod_list shape < 2147483648"
    using assms by (simp_all add: shape_fits_def)
  have "prod_list (drop k shape) < 2147483648"
    using prod_list_drop_le [OF pos, of k] lt by linarith
  then show ?thesis using mul_dims_from_prod [OF pos, of 1 k] by simp
qed

lemma mul_dims_from_negative: "idx < 0 \<Longrightarrow> mul_dims_from shape idx acc = acc"
  by (simp add: mul_dims_from.simps [of shape idx])

section \<open>Strategy selection\<close>

text \<open>
  Claim C5, as the code has it. The without-last strategy is selected exactly when the
  axes list is non-empty, contains neither the index of the last dimension nor \<open>-1\<close>, its
  last entry is a non-negative index, and the extents after that entry multiply to more
  than one. Excluding the last dimension from the reduce axes is therefore necessary but
  not sufficient: trailing extents that are all \<open>1\<close> select the with-last strategy.
\<close>

theorem WithoutLastDimInReduce_iff:
  assumes "shape_fits shape"
  shows "WithoutLastDimInReduce shape axes \<longleftrightarrow>
     axes \<noteq> [] \<and> int (length shape) - 1 \<notin> set axes \<and> - 1 \<notin> set axes \<and>
     0 \<le> last axes \<and> 1 < prod_list (drop (nat (last axes + 1)) shape)"
proof (cases "axes = [] \<or> int (length shape) - 1 \<in> set axes \<or> - 1 \<in> set axes")
  case True
  then show ?thesis by (auto simp: WithoutLastDimInReduce_def)
next
  case False
  then have ne: "axes \<noteq> []" and nl: "- 1 \<notin> set axes" by auto
  have lastin: "last axes \<in> set axes" using ne by simp
  then have lne: "last axes \<noteq> - 1" using nl by metis
  show ?thesis
  proof (cases "0 \<le> last axes")
    case True
    then have "mul_dims_from shape (last axes + 1) 1
        = prod_list (drop (nat (last axes + 1)) shape)"
      using mul_dims_from_fits [OF assms, of "nat (last axes + 1)"] by simp
    then show ?thesis using False True by (simp add: WithoutLastDimInReduce_def)
  next
    case neg: False
    then have "last axes + 1 < 0" using lne by linarith
    then have "mul_dims_from shape (last axes + 1) 1 = 1"
      by (rule mul_dims_from_negative)
    then show ?thesis using False neg by (simp add: WithoutLastDimInReduce_def)
  qed
qed

theorem WithoutLastDimInReduce_iff_witness:
  "shape_fits [16, 16, 16] \<and> WithoutLastDimInReduce [16, 16, 16] [0, 1]"
proof -
  have h: "shape_fits [16, 16, 16]" by (simp add: shape_fits_def)
  show ?thesis using h WithoutLastDimInReduce_iff [OF h, of "[0, 1]"] by simp
qed

text \<open>
  The reading of C5 as an equivalence with "the axes exclude the last dimension" alone
  fails: reducing axis \<open>1\<close> of shape \<open>[4, 8, 1]\<close> excludes the last dimension, and the
  function answers false.
\<close>

theorem WithoutLastDimInReduce_counterexample:
  "\<not> (WithoutLastDimInReduce [4, 8, 1] [1] \<longleftrightarrow>
       [1] \<noteq> [] \<and> int (length [4 :: int, 8, 1]) - 1 \<notin> set [1 :: int])"
  by (simp add: WithoutLastDimInReduce_def mul_dims_from.simps mul32_def int32_def)

section \<open>Reduction loop planner\<close>

lemma sdiv_nonneg: "0 \<le> a \<Longrightarrow> 0 \<le> b \<Longrightarrow> (a :: int) sdiv b = a div b"
  by (cases "a = 0"; cases "b = 0") (simp_all add: signed_divide_int_def sgn_if)

lemma smod_eq_0_iff_dvd: "0 < a \<Longrightarrow> 0 < b \<Longrightarrow> (a :: int) smod b = 0 \<longleftrightarrow> b dvd a"
  by (simp add: smod_mod_positive dvd_eq_mod_eq_0)

text \<open>
  Claim C4. When the extents after the last reduce axis multiply to more than \<open>T / 2\<close>,
  \<^verbatim>\<open>LoopAssignReduceWithoutLast\<close> stops at its \<^verbatim>\<open>CHECK_LE\<close>, and the schedule it stops
  in is the one it was called with: nothing was applied to it.
\<close>

theorem LoopAssignReduceWithoutLast_lane_check:
  assumes "shape_fits inshape"
    and "axes \<noteq> []"
    and "0 \<le> last axes"
    and "max_num_threads sdiv 2 < prod_list (drop (nat (last axes + 1)) inshape)"
  shows "LoopAssignReduceWithoutLast view sch block_name inshape axes max_num_threads
     = Fatal (CheckFailed ''lane <= max_num_threads / 2'') sch"
proof -
  have "mul_dims_from inshape (last axes + 1) 1 = prod_list (drop (nat (last axes + 1)) inshape)"
    using mul_dims_from_fits [OF assms(1), of "nat (last axes + 1)"] assms(3) by simp
  then show ?thesis
    using assms(2,4) by (simp add: LoopAssignReduceWithoutLast_def)
qed

theorem LoopAssignReduceWithoutLast_lane_check_witness:
  "shape_fits [16, 16, 1024] \<and> [1 :: int] \<noteq> [] \<and> 0 \<le> last [1 :: int] \<and>
   1024 sdiv 2 < prod_list (drop (nat (last [1] + 1)) [16, 16, 1024 :: int]) \<and>
   LoopAssignReduceWithoutLast ex_view [] ''var_1'' [16, 16, 1024] [1] 1024
     = Fatal (CheckFailed ''lane <= max_num_threads / 2'') []"
proof -
  have h1: "shape_fits [16, 16, 1024]" by (simp add: shape_fits_def)
  have h4: "(1024 :: int) sdiv 2 < prod_list (drop (nat (last [1] + 1)) [16, 16, 1024 :: int])"
    by simp
  show ?thesis
    using h1 h4 LoopAssignReduceWithoutLast_lane_check [OF h1 _ _ h4, of ex_view "[]" "''var_1''"]
    by simp
qed

lemma reduce_extents_pos:
  assumes "list_all (\<lambda>d. 0 < d) inshape"
    and "list_all (\<lambda>axis. 0 \<le> axis \<and> axis < int (length inshape)) axes"
  shows "list_all (\<lambda>d. 0 < d) (reduce_extents inshape axes)"
  using assms by (auto simp: reduce_extents_def list_all_iff)

lemma reduce_extents_drop:
  "reduce_extents inshape (drop k axes) = drop k (reduce_extents inshape axes)"
  by (simp add: reduce_extents_def drop_map)

lemma reduce_extents_step:
  "k < length axes \<Longrightarrow>
   prod_list (reduce_extents inshape (drop k axes))
     = prod_list (reduce_extents inshape (drop (Suc k) axes)) * inshape ! nat (axes ! k)"
  by (simp add: reduce_extents_def Cons_nth_drop_Suc [symmetric])

lemma WithLast_scan_step:
  assumes "0 \<le> index"
    and "\<not> (index + 1 < int (length axes) \<and> axes ! nat index \<noteq> axes ! nat (index + 1) - 1)"
    and "at_index inshape (axes ! nat index) = Inr d"
    and "mul32 lane d = lane'"
  shows "WithLast_scan inshape axes max_num_threads index lane =
     (if index = 0 \<and> lane' \<le> max_num_threads
      then Inl (LogFatal ''Error! lane is less equal than max_num_threads, Please check!'')
      else if lane' \<ge> max_num_threads sdiv 2
        then (if lane' \<le> max_num_threads then Inr (index - 1, lane') else Inr (index, lane'))
      else WithLast_scan inshape axes max_num_threads (index - 1) lane')"
  by (subst WithLast_scan.simps) (simp only: assms if_True if_False sum.case Let_def)

lemma WithLast_scan_reaches_front:
  assumes pos: "list_all (\<lambda>d. 0 < d) inshape"
    and T: "max_num_threads < 2147483648"
    and valid: "list_all (\<lambda>axis. 0 \<le> axis \<and> axis < int (length inshape)) axes"
    and contiguous: "\<forall>i. Suc i < length axes \<longrightarrow> axes ! i = axes ! Suc i - 1"
    and small: "\<forall>j. 0 < j \<and> j < length axes \<longrightarrow>
        prod_list (reduce_extents inshape (drop j axes)) < max_num_threads sdiv 2"
    and total: "prod_list (reduce_extents inshape axes) \<le> max_num_threads"
  shows "k < length axes \<Longrightarrow>
     WithLast_scan inshape axes max_num_threads (int k)
       (prod_list (reduce_extents inshape (drop (Suc k) axes)))
     = Inl (LogFatal ''Error! lane is less equal than max_num_threads, Please check!'')"
proof (induction k)
  case 0
  have allpos: "0 < prod_list (reduce_extents inshape axes)"
    by (rule prod_list_pos [OF reduce_extents_pos [OF pos valid]])
  have at: "at_index inshape (axes ! nat (int 0)) = Inr (inshape ! nat (axes ! 0))"
    using valid 0 by (simp add: at_index_def list_all_length)
  have step: "prod_list (reduce_extents inshape (drop (Suc 0) axes)) * inshape ! nat (axes ! 0)
      = prod_list (reduce_extents inshape axes)"
    using reduce_extents_step [OF 0, of inshape] by simp
  have m: "mul32 (prod_list (reduce_extents inshape (drop (Suc 0) axes))) (inshape ! nat (axes ! 0))
      = prod_list (reduce_extents inshape axes)"
    unfolding mul32_def step using allpos total T by (intro int32_id) simp_all
  have c: "\<not> (int 0 + 1 < int (length axes) \<and>
      axes ! nat (int 0) \<noteq> axes ! nat (int 0 + 1) - 1)"
    using contiguous by auto
  have "WithLast_scan inshape axes max_num_threads (int 0)
        (prod_list (reduce_extents inshape (drop (Suc 0) axes)))
      = Inl (LogFatal ''Error! lane is less equal than max_num_threads, Please check!'')"
    using total by (simp only: WithLast_scan_step [OF of_nat_0_le_iff c at m]) simp
  then show ?case by simp
next
  case (Suc k)
  then have k: "k < length axes" by simp
  let ?lane = "prod_list (reduce_extents inshape (drop (Suc k) axes))"
  have sm: "?lane < max_num_threads sdiv 2" using small Suc.prems by simp
  have validk: "list_all (\<lambda>axis. 0 \<le> axis \<and> axis < int (length inshape)) (drop (Suc k) axes)"
    using valid by (simp add: list_all_iff) (meson in_set_dropD)
  have lpos: "0 < ?lane"
    by (rule prod_list_pos [OF reduce_extents_pos [OF pos validk]])
  have Tpos: "0 < max_num_threads"
    using total prod_list_pos [OF reduce_extents_pos [OF pos valid]] by linarith
  then have half: "max_num_threads sdiv 2 \<le> max_num_threads"
    by (simp add: sdiv_nonneg)
  have at: "at_index inshape (axes ! nat (int (Suc k))) = Inr (inshape ! nat (axes ! Suc k))"
    unfolding nat_int using valid Suc.prems by (simp add: at_index_def list_all_length)
  have step: "prod_list (reduce_extents inshape (drop (Suc (Suc k)) axes))
      * inshape ! nat (axes ! Suc k) = ?lane"
    using reduce_extents_step [OF Suc.prems, of inshape] by simp
  have m: "mul32 (prod_list (reduce_extents inshape (drop (Suc (Suc k)) axes)))
      (inshape ! nat (axes ! Suc k)) = ?lane"
    unfolding mul32_def step using lpos sm half T by (intro int32_id) simp_all
  have n2: "nat (int (Suc k) + 1) = Suc (Suc k)" by simp
  have c: "\<not> (int (Suc k) + 1 < int (length axes) \<and>
      axes ! nat (int (Suc k)) \<noteq> axes ! nat (int (Suc k) + 1) - 1)"
    unfolding nat_int n2 using contiguous by auto
  have nz: "int (Suc k) \<noteq> 0" by simp
  have prev: "int (Suc k) - 1 = int k" by simp
  show ?case
    using sm nz Suc.IH [OF k]
    by (simp only: WithLast_scan_step [OF of_nat_0_le_iff c at m] prev) simp
qed

text \<open>
  Claim C10, as the code has it. The backward scan of \<^verbatim>\<open>LoopAssignReduceWithLast\<close> reaches
  the first reduce axis only when the axes are contiguous and the extents of the axes
  after the first multiply to less than \<open>T / 2\<close>; if then all extents multiply to at
  most \<open>T\<close>, the function stops at its \<^verbatim>\<open>LOG(FATAL)\<close>, with the schedule untouched.
\<close>

theorem LoopAssignReduceWithLast_fatal_at_front:
  assumes pos: "list_all (\<lambda>d. 0 < d) inshape"
    and T: "max_num_threads < 2147483648"
    and ne: "axes \<noteq> []"
    and valid: "list_all (\<lambda>axis. 0 \<le> axis \<and> axis < int (length inshape)) axes"
    and contiguous: "\<forall>i. Suc i < length axes \<longrightarrow> axes ! i = axes ! Suc i - 1"
    and rest: "tl axes = [] \<or>
        prod_list (reduce_extents inshape (tl axes)) < max_num_threads sdiv 2"
    and total: "prod_list (reduce_extents inshape axes) \<le> max_num_threads"
  shows "LoopAssignReduceWithLast view sch block_name inshape axes max_num_threads
     = Fatal (LogFatal ''Error! lane is less equal than max_num_threads, Please check!'') sch"
proof -
  have small: "\<forall>j. 0 < j \<and> j < length axes \<longrightarrow>
      prod_list (reduce_extents inshape (drop j axes)) < max_num_threads sdiv 2"
  proof (intro allI impI)
    fix j assume j: "0 < j \<and> j < length axes"
    then have tlne: "tl axes \<noteq> []" by (cases axes) auto
    have validtl: "list_all (\<lambda>axis. 0 \<le> axis \<and> axis < int (length inshape)) (tl axes)"
      using valid by (cases axes) simp_all
    have "drop j axes = drop (j - 1) (tl axes)"
      using j by (cases axes; cases j) simp_all
    then have "prod_list (reduce_extents inshape (drop j axes))
        = prod_list (drop (j - 1) (reduce_extents inshape (tl axes)))"
      by (simp add: reduce_extents_drop)
    also have "\<dots> \<le> prod_list (reduce_extents inshape (tl axes))"
      by (rule prod_list_drop_le [OF reduce_extents_pos [OF pos validtl]])
    finally show "prod_list (reduce_extents inshape (drop j axes)) < max_num_threads sdiv 2"
      using rest tlne by simp
  qed
  obtain k where k: "length axes = Suc k" using ne by (cases axes) auto
  have "WithLast_scan inshape axes max_num_threads (int k)
      (prod_list (reduce_extents inshape (drop (Suc k) axes)))
    = Inl (LogFatal ''Error! lane is less equal than max_num_threads, Please check!'')"
    using WithLast_scan_reaches_front [OF pos T valid contiguous small total, of k] k by simp
  then have "WithLast_scan inshape axes max_num_threads (int (length axes) - 1) 1
    = Inl (LogFatal ''Error! lane is less equal than max_num_threads, Please check!'')"
    using k by (simp add: reduce_extents_def)
  then show ?thesis by (simp add: LoopAssignReduceWithLast_def)
qed

theorem LoopAssignReduceWithLast_fatal_at_front_witness:
  "list_all (\<lambda>d. 0 < d) [4, 4 :: int] \<and> (1024 :: int) < 2147483648 \<and> [0, 1 :: int] \<noteq> [] \<and>
   list_all (\<lambda>axis. 0 \<le> axis \<and> axis < int (length [4, 4 :: int])) [0, 1] \<and>
   prod_list (reduce_extents [4, 4] (tl [0, 1])) < 1024 sdiv 2 \<and>
   prod_list (reduce_extents [4, 4] [0, 1]) \<le> 1024 \<and>
   LoopAssignReduceWithLast ex_view [] ''var_1'' [4, 4] [0, 1] 1024
     = Fatal (LogFatal ''Error! lane is less equal than max_num_threads, Please check!'') []"
proof -
  have c: "\<forall>i. Suc i < length [0, 1 :: int] \<longrightarrow> [0, 1 :: int] ! i = [0, 1] ! Suc i - 1"
    by (simp add: less_Suc_eq)
  have r: "tl [0, 1 :: int] = [] \<or>
      prod_list (reduce_extents [4, 4] (tl [0, 1])) < 1024 sdiv 2"
    by (simp add: reduce_extents_def)
  have t: "prod_list (reduce_extents [4, 4] [0, 1]) \<le> 1024"
    by (simp add: reduce_extents_def)
  have "LoopAssignReduceWithLast ex_view [] ''var_1'' [4, 4] [0, 1] 1024
     = Fatal (LogFatal ''Error! lane is less equal than max_num_threads, Please check!'') []"
    by (rule LoopAssignReduceWithLast_fatal_at_front [OF _ _ _ _ c r t]) simp_all
  then show ?thesis using t by (simp add: reduce_extents_def)
qed

text \<open>
  The second half of C10 fails: a reduction over both axes of shape \<open>[2, 512]\<close> has
  \<open>1024\<close> elements, at most \<open>T = 1024\<close>, and the function does not abort. The scan stops
  at the last axis, whose extent already reaches \<open>T / 2\<close>, and never reaches the first.
\<close>

theorem LoopAssignReduceWithLast_counterexample:
  "prod_list (reduce_extents [2, 512] [0, 1]) \<le> 1024 \<and>
   LoopAssignReduceWithLast ex_view [] ''var_1'' [2, 512] [0, 1] 1024
     = Done [Reorder ''var_1'' [1, 0]]"
  by code_simp

lemma WithLast_search_found:
  assumes "0 < lane" and "0 < d" and "lo \<le> d" and "d dvd lane"
  shows "d \<le> idx \<Longrightarrow> \<forall>d'. d < d' \<and> d' \<le> idx \<longrightarrow> \<not> d' dvd lane \<Longrightarrow>
     WithLast_search lane lo idx = Inr (Some d)"
proof (induction "nat (idx - d)" arbitrary: idx)
  case 0
  then have "idx = d" by simp
  then show ?case
    using assms by (subst WithLast_search.simps) (simp add: smod_eq_0_iff_dvd)
next
  case (Suc n)
  then have gt: "d < idx" by linarith
  then have pos: "0 < idx" using assms(2) by linarith
  have nd: "\<not> idx dvd lane" using Suc.prems(2) gt by simp
  have "WithLast_search lane lo idx = WithLast_search lane lo (idx - 1)"
    using pos nd gt assms(1,3)
    by (subst WithLast_search.simps) (simp add: smod_eq_0_iff_dvd)
  moreover have "WithLast_search lane lo (idx - 1) = Inr (Some d)"
    using Suc.hyps(1) [of "idx - 1"] Suc.hyps(2) Suc.prems(2) gt by simp
  ultimately show ?case by simp
qed

lemma WithLast_search_none:
  assumes "0 < lane" and "0 < lo"
  shows "lo \<le> idx \<Longrightarrow> \<forall>d. lo \<le> d \<and> d \<le> idx \<longrightarrow> \<not> d dvd lane \<Longrightarrow>
     WithLast_search lane lo idx = Inr None"
proof (induction "nat (idx - lo)" arbitrary: idx)
  case 0
  then have "idx = lo" by simp
  then show ?case
    using assms 0(3) by (subst WithLast_search.simps) (simp add: smod_eq_0_iff_dvd)
next
  case (Suc n)
  then have gt: "lo < idx" by linarith
  then have pos: "0 < idx" using assms(2) by linarith
  have nd: "\<not> idx dvd lane" using Suc.prems(2) gt by simp
  have "WithLast_search lane lo idx = WithLast_search lane lo (idx - 1)"
    using pos nd gt assms(1)
    by (subst WithLast_search.simps) (simp add: smod_eq_0_iff_dvd)
  moreover have "WithLast_search lane lo (idx - 1) = Inr None"
    using Suc.hyps(1) [of "idx - 1"] Suc.hyps(2) Suc.prems(2) gt by simp
  ultimately show ?case by simp
qed

lemma WithLast_scan_last_axis:
  assumes T: "0 < max_num_threads"
    and ne: "axes \<noteq> []"
    and lo: "0 \<le> last axes" and hi: "last axes < int (length inshape)"
    and big: "max_num_threads < inshape ! nat (last axes)"
    and fits: "inshape ! nat (last axes) < 2147483648"
  shows "WithLast_scan inshape axes max_num_threads (int (length axes) - 1) 1
     = Inr (int (length axes) - 1, inshape ! nat (last axes))"
proof -
  obtain k where k: "length axes = Suc k" using ne by (cases axes) auto
  have la: "axes ! nat (int (length axes) - 1) = last axes"
    using ne k by (simp add: last_conv_nth)
  have c: "\<not> (int (length axes) - 1 + 1 < int (length axes) \<and>
      axes ! nat (int (length axes) - 1) \<noteq> axes ! nat (int (length axes) - 1 + 1) - 1)"
    by simp
  have at: "at_index inshape (axes ! nat (int (length axes) - 1)) = Inr (inshape ! nat (last axes))"
    unfolding la using lo hi by (simp add: at_index_def)
  have m: "mul32 1 (inshape ! nat (last axes)) = inshape ! nat (last axes)"
    using T big fits by (simp add: mul32_def int32_id)
  have nn: "0 \<le> int (length axes) - 1" using k by simp
  have half: "max_num_threads sdiv 2 \<le> max_num_threads"
    using T by (simp add: sdiv_nonneg)
  show ?thesis
    using big half by (simp only: WithLast_scan_step [OF nn c at m]) simp
qed

text \<open>
  Claim C3. With the last reduce axis of an extent above \<open>T\<close>, the scan of
  \<^verbatim>\<open>LoopAssignReduceWithLast\<close> stops there with that extent as its lane. The function then
  splits that axis by the greatest divisor \<open>d\<close> of the extent with \<open>T / 2 \<le> d \<le> T\<close> and
  goes on to \<^verbatim>\<open>LoopOrderAssignReduce\<close> with all the axes; when the extent has no divisor
  in that range it stops at its \<^verbatim>\<open>CHECK_GE\<close>, the schedule untouched.
\<close>

theorem LoopAssignReduceWithLast_split_last_axis:
  assumes T: "0 < max_num_threads"
    and ne: "axes \<noteq> []"
    and lo: "0 \<le> last axes" and hi: "last axes < int (length inshape)"
    and big: "max_num_threads < inshape ! nat (last axes)"
    and fits: "inshape ! nat (last axes) < 2147483648"
  shows "(max_num_threads div 2 \<le> d \<and> d \<le> max_num_threads \<and> d dvd inshape ! nat (last axes) \<and>
        (\<forall>d'. d < d' \<and> d' \<le> max_num_threads \<longrightarrow> \<not> d' dvd inshape ! nat (last axes)) \<longrightarrow>
      LoopAssignReduceWithLast view sch block_name inshape axes max_num_threads
        = LoopOrderAssignReduce view (sch @ [Split block_name (last axes) [- 1, d]])
            block_name axes max_num_threads False) \<and>
     ((\<forall>d. max_num_threads div 2 \<le> d \<and> d \<le> max_num_threads \<longrightarrow>
           \<not> d dvd inshape ! nat (last axes)) \<longrightarrow>
      LoopAssignReduceWithLast view sch block_name inshape axes max_num_threads
        = Fatal (CheckFailed ''idx >= max_num_threads / 2'') sch)"
proof -
  let ?extent = "inshape ! nat (last axes)"
  have half: "max_num_threads sdiv 2 = max_num_threads div 2"
    using T by (simp add: sdiv_nonneg)
  have epos: "0 < ?extent" using T big by linarith
  have scan: "WithLast_scan inshape axes max_num_threads (int (length axes) - 1) 1
      = Inr (int (length axes) - 1, ?extent)"
    by (rule WithLast_scan_last_axis [OF T ne lo hi big fits])
  have at: "at_index axes (int (length axes) - 1) = Inr (last axes)"
    using ne by (cases axes rule: rev_cases) (simp_all add: at_index_def)
  have first: "take (nat (int (length axes) - 1 + 1)) axes = axes" by simp
  have found: "LoopAssignReduceWithLast view sch block_name inshape axes max_num_threads
        = LoopOrderAssignReduce view (sch @ [Split block_name (last axes) [- 1, d]])
            block_name axes max_num_threads False"
    if d: "max_num_threads div 2 \<le> d" "d \<le> max_num_threads" "d dvd ?extent"
      "\<forall>d'. d < d' \<and> d' \<le> max_num_threads \<longrightarrow> \<not> d' dvd ?extent"
  proof -
    have dpos: "0 < d"
    proof (rule ccontr)
      assume "\<not> 0 < d"
      moreover have "0 \<le> d" using d(1) T by (smt (verit) pos_imp_zdiv_nonneg_iff)
      ultimately have "d = 0" by simp
      then show False using d(3) epos by simp
    qed
    have s: "WithLast_search ?extent (max_num_threads div 2) max_num_threads = Inr (Some d)"
      by (rule WithLast_search_found [OF epos dpos d(1) d(3) d(2) d(4)])
    show ?thesis
      using big d(1)
      by (simp add: LoopAssignReduceWithLast_def scan WithLast_split_def half s at first
          del: take_all_iff)
  qed
  have none: "LoopAssignReduceWithLast view sch block_name inshape axes max_num_threads
        = Fatal (CheckFailed ''idx >= max_num_threads / 2'') sch"
    if nd: "\<forall>d. max_num_threads div 2 \<le> d \<and> d \<le> max_num_threads \<longrightarrow> \<not> d dvd ?extent"
  proof -
    have "\<not> (max_num_threads div 2 \<le> 1 \<and> 1 \<le> max_num_threads)"
      using nd by (metis one_dvd)
    then have lopos: "0 < max_num_threads div 2" using T by linarith
    have le: "max_num_threads div 2 \<le> max_num_threads" using T by simp
    have s: "WithLast_search ?extent (max_num_threads div 2) max_num_threads = Inr None"
      by (rule WithLast_search_none [OF epos lopos le nd])
    show ?thesis
      using big by (simp add: LoopAssignReduceWithLast_def scan WithLast_split_def half s)
  qed
  show ?thesis using found none by blast
qed

theorem LoopAssignReduceWithLast_split_last_axis_witness:
  "LoopAssignReduceWithLast ex_view [] ''var_1'' [2, 2048] [1] 1024
     = LoopOrderAssignReduce ex_view [Split ''var_1'' 1 [- 1, 1024]] ''var_1'' [1] 1024 False \<and>
   LoopAssignReduceWithLast ex_view [] ''var_1'' [2, 7] [1] 4
     = Fatal (CheckFailed ''idx >= max_num_threads / 2'') []"
proof -
  have a: "(1024 :: int) div 2 \<le> 1024 \<and> (1024 :: int) \<le> 1024 \<and>
      (1024 :: int) dvd [2, 2048] ! nat (last [1]) \<and>
      (\<forall>d'. 1024 < d' \<and> d' \<le> (1024 :: int) \<longrightarrow> \<not> d' dvd [2, 2048] ! nat (last [1]))"
    by auto
  have b: "\<forall>d. (4 :: int) div 2 \<le> d \<and> d \<le> 4 \<longrightarrow> \<not> d dvd [2, 7] ! nat (last [1])"
  proof (intro allI impI)
    fix d :: int assume "4 div 2 \<le> d \<and> d \<le> 4"
    then have "d = 2 \<or> d = 3 \<or> d = 4" by auto
    then show "\<not> d dvd [2, 7] ! nat (last [1])" by auto
  qed
  have "LoopAssignReduceWithLast ex_view [] ''var_1'' [2, 2048] [1] 1024
     = LoopOrderAssignReduce ex_view ([] @ [Split ''var_1'' (last [1]) [- 1, 1024]])
         ''var_1'' [1] 1024 False"
    using LoopAssignReduceWithLast_split_last_axis
      [of 1024 "[1]" "[2, 2048]" 1024 ex_view "[]" "''var_1''"] a
    by simp
  moreover have "LoopAssignReduceWithLast ex_view [] ''var_1'' [2, 7] [1] 4
     = Fatal (CheckFailed ''idx >= max_num_threads / 2'') []"
    using LoopAssignReduceWithLast_split_last_axis
      [of 4 "[1]" "[2, 7]" 2 ex_view "[]" "''var_1''"] b
    by simp
  ultimately show ?thesis by simp
qed

section \<open>Fusibility classifier\<close>

lemma foldl_mul32_prod:
  "list_all (\<lambda>d. 0 < d) shape \<Longrightarrow> 0 < acc \<Longrightarrow> acc * prod_list shape < 2147483648 \<Longrightarrow>
   foldl mul32 acc shape = acc * prod_list shape"
proof (induction shape arbitrary: acc)
  case Nil
  then show ?case by simp
next
  case (Cons d shape)
  have dpos: "0 < d" and rest: "list_all (\<lambda>d. 0 < d) shape" using Cons.prems(1) by simp_all
  have r1: "1 \<le> prod_list shape" by (rule prod_list_ge1 [OF rest])
  have accd: "0 < acc * d" using Cons.prems(2) dpos by simp
  have bound: "acc * d * prod_list shape < 2147483648"
    using Cons.prems(3) by (simp add: mult.assoc)
  have "acc * d \<le> acc * d * prod_list shape" by (rule le_mult_pos_right [OF accd r1])
  then have small: "acc * d < 2147483648" using bound by linarith
  have m: "mul32 acc d = acc * d"
    using accd small by (simp add: mul32_def int32_id)
  show ?case
    using Cons.IH [OF rest accd bound] m by (simp add: mult.assoc)
qed

lemma accumulate_multiplies_fits:
  "shape_fits shape \<Longrightarrow> accumulate_multiplies shape = prod_list shape"
  using foldl_mul32_prod [of shape 1] by (simp add: accumulate_multiplies_def shape_fits_def)

lemma numel_differs_counts:
  assumes "\<forall>key shape. shape_dict key = Some shape \<longrightarrow> shape_fits shape"
    and "lookup1 = Inl e1 \<or> (\<exists>key. lookup1 = at_key shape_dict key)"
    and "lookup2 = Inl e2 \<or> (\<exists>key. lookup2 = at_key shape_dict key)"
  shows "numel_differs lookup1 lookup2
     = counts_differ (element_count lookup1) (element_count lookup2)"
proof -
  have f: "lookup = Inr shape \<Longrightarrow> lookup = Inl e \<or> (\<exists>key. lookup = at_key shape_dict key) \<Longrightarrow>
      accumulate_multiplies shape = prod_list shape" for lookup shape e
    using assms(1) by (auto simp: at_key_def accumulate_multiplies_fits split: option.splits)
  show ?thesis
    using f [of lookup1 _ e1] f [of lookup2 _ e2] assms(2,3)
    by (cases lookup1; cases lookup2)
      (simp_all add: numel_differs_def counts_differ_def element_count_def)
qed

lemma FindReducerInRoute_visit_find:
  "FindReducerInRoute_visit g consumers candidates =
     (case find (\<lambda>c. op_pattern g c = kReduction) consumers of
        Some c \<Rightarrow> Inl c
      | None \<Rightarrow> Inr (candidates @ consumers))"
  by (induction consumers arbitrary: candidates) (simp_all split: option.splits)

lemma reaches_reducer_step:
  assumes "find (\<lambda>c. op_pattern g c = kReduction) (neighbours n) = None"
  shows "reaches_reducer g neighbours n \<longleftrightarrow>
     (\<exists>c \<in> set (neighbours n). reaches_reducer g neighbours c)"
proof
  assume "reaches_reducer g neighbours n"
  then show "\<exists>c \<in> set (neighbours n). reaches_reducer g neighbours c"
  proof (cases rule: reaches_reducer.cases)
    case (direct c)
    then show ?thesis using assms by (auto simp: find_None_iff)
  next
    case (via c)
    then show ?thesis by blast
  qed
next
  assume "\<exists>c \<in> set (neighbours n). reaches_reducer g neighbours c"
  then show "reaches_reducer g neighbours n" by (blast intro: reaches_reducer.via)
qed

lemma FindReducerInRoute_loop_correct:
  assumes wf: "wf {(c, n). c \<in> set (neighbours n)}"
  shows "\<exists>found. FindReducerInRoute_loop g neighbours candidates = Some found \<and>
     (found \<noteq> None \<longleftrightarrow> (\<exists>n \<in> set candidates. reaches_reducer g neighbours n))"
proof -
  let ?r = "{(c, n). c \<in> set (neighbours n)}"
  have "wf (inv_image (mult1 ?r) mset)" by (intro wf_inv_image wf_mult1 wf)
  then show ?thesis
  proof (induction candidates rule: wf_induct_rule)
    case (less candidates)
    show ?case
    proof (cases candidates)
      case Nil
      then show ?thesis by (simp add: FindReducerInRoute_loop.simps)
    next
      case (Cons n rest)
      show ?thesis
      proof (cases "find (\<lambda>c. op_pattern g c = kReduction) (neighbours n)")
        case (Some c)
        then have "c \<in> set (neighbours n)" "op_pattern g c = kReduction"
          by (auto simp: find_Some_iff)
        then have "reaches_reducer g neighbours n" by (rule reaches_reducer.direct)
        then show ?thesis
          using Cons Some
          by (subst FindReducerInRoute_loop.simps) (auto simp: FindReducerInRoute_visit_find)
      next
        case None
        have "(mset (rest @ neighbours n), mset (n # rest)) \<in> mult1 ?r"
        proof -
          have "mset (n # rest) = add_mset n (mset rest)" by simp
          moreover have "mset (rest @ neighbours n) = mset rest + mset (neighbours n)" by simp
          moreover have "\<forall>b. b \<in># mset (neighbours n) \<longrightarrow> (b, n) \<in> ?r" by simp
          ultimately show ?thesis unfolding mult1_def by blast
        qed
        then have "(rest @ neighbours n, candidates) \<in> inv_image (mult1 ?r) mset"
          using Cons by simp
        from less [OF this] obtain found where
          run: "FindReducerInRoute_loop g neighbours (rest @ neighbours n) = Some found" and
          iff: "found \<noteq> None \<longleftrightarrow>
            (\<exists>m \<in> set (rest @ neighbours n). reaches_reducer g neighbours m)"
          by blast
        have "FindReducerInRoute_loop g neighbours candidates = Some found"
          using Cons None run
          by (subst FindReducerInRoute_loop.simps) (simp add: FindReducerInRoute_visit_find)
        moreover have "(\<exists>m \<in> set candidates. reaches_reducer g neighbours m) \<longleftrightarrow>
            (\<exists>m \<in> set (rest @ neighbours n). reaches_reducer g neighbours m)"
          using Cons reaches_reducer_step [where neighbours = neighbours and n = n, OF None] by auto
        ultimately show ?thesis using iff by blast
      qed
    qed
  qed
qed

lemma FindReducerInRoute_correct:
  assumes "wf {(c, n). c \<in> set (visitor g n nodes_set)}"
  shows "\<exists>found. FindReducerInRoute g node nodes_set visitor = Some found \<and>
     (found \<noteq> None \<longleftrightarrow> reaches_reducer g (\<lambda>n. visitor g n nodes_set) node)"
  using FindReducerInRoute_loop_correct [OF assms, of g "[node]"]
  by (simp add: FindReducerInRoute_def)

text \<open>
  Claim C2. On a graph in which no chain of consumers or of producers inside the node
  set goes on for ever, and with a shape table whose shapes have positive extents and
  an element count that fits, \<^verbatim>\<open>CanbeInline\<close> returns, and what it returns is the result
  of the ordered first-match rules.
\<close>

theorem CanbeInline_first_match:
  assumes "wf {(c, n). c \<in> set (GetConsumersInSet g n nodes_set)}"
    and "wf {(p, n). p \<in> set (GetProducersInSet g n nodes_set)}"
    and "\<forall>key shape. shape_dict key = Some shape \<longrightarrow> shape_fits shape"
  shows "CanbeInline g node consumers reducer laster grp nodes_set shape_dict
     = Some (can_inline_spec g node consumers reducer laster grp nodes_set shape_dict)"
proof -
  obtain down where down: "FindReducerInRoute g node nodes_set GetConsumersInSet = Some down"
    "down \<noteq> None \<longleftrightarrow> reaches_reducer g (\<lambda>n. GetConsumersInSet g n nodes_set) node"
    using FindReducerInRoute_correct [where visitor = GetConsumersInSet, OF assms(1)] by blast
  obtain up where up: "FindReducerInRoute g node nodes_set GetProducersInSet = Some up"
    "up \<noteq> None \<longleftrightarrow> reaches_reducer g (\<lambda>n. GetProducersInSet g n nodes_set) node"
    using FindReducerInRoute_correct [where visitor = GetProducersInSet, OF assms(2)] by blast
  have out: "numel_differs (GetOutputShape g node shape_dict) (GetOutputShape g n shape_dict)
      = counts_differ (element_count (GetOutputShape g node shape_dict))
          (element_count (GetOutputShape g n shape_dict))" for n
    by (rule numel_differs_counts [OF assms(3)]) (auto simp: GetOutputShape_def)
  have inp: "numel_differs (GetOutputShape g node shape_dict) (GetInputShape g r shape_dict)
      = counts_differ (element_count (GetOutputShape g node shape_dict))
          (element_count (GetInputShape g r shape_dict))" for r
    by (rule numel_differs_counts [OF assms(3), where ?e2.0 = "CheckFailed ''producers.size()''"])
      (auto simp: GetOutputShape_def GetInputShape_def Let_def)
  show ?thesis
  proof (cases reducer)
    case None
    then show ?thesis
      by (simp add: CanbeInline_def can_inline_spec_def IsConstOp_def const_op_type_def out
          list_ex_iff)
  next
    case (Some global_reducer)
    then show ?thesis
      using down up
      by (auto simp: CanbeInline_def can_inline_spec_def IsConstOp_def const_op_type_def inp
          list_ex_iff)
  qed
qed


lemma ex_inline_consumers_wf:
  "wf {(c, n). c \<in> set (GetConsumersInSet ex_inline_graph n {0, 1, 2, 3, 4})}"
proof (rule wf_subset [OF wf_measure [of "\<lambda>n. 5 - n"]])
  show "{(c, n). c \<in> set (GetConsumersInSet ex_inline_graph n {0, 1, 2, 3, 4})}
      \<subseteq> measure (\<lambda>n. 5 - n)"
    by (auto simp: GetConsumersInSet_def ex_inline_graph_def split: if_splits)
qed

lemma ex_inline_producers_wf:
  "wf {(p, n). p \<in> set (GetProducersInSet ex_inline_graph n {0, 1, 2, 3, 4})}"
proof (rule wf_subset [OF wf_measure [of "\<lambda>n. n"]])
  show "{(p, n). p \<in> set (GetProducersInSet ex_inline_graph n {0, 1, 2, 3, 4})}
      \<subseteq> measure (\<lambda>n. n)"
    by (auto simp: GetProducersInSet_def GetProducers_def List.map_filter_def ex_inline_graph_def
        split: if_splits)
qed

lemma ex_inline_shapes_fit:
  "\<forall>key shape. ex_inline_shape_dict key = Some shape \<longrightarrow> shape_fits shape"
  by (auto simp: ex_inline_shape_dict_def shape_fits_def split: if_splits)

theorem CanbeInline_first_match_witness:
  "CanbeInline ex_inline_graph 0 [1, 2] (Some 3) 4 ex_inline_group {0, 1, 2, 3, 4}
     ex_inline_shape_dict = Some (Inr True) \<and>
   can_inline_spec ex_inline_graph 0 [1, 2] (Some 3) 4 ex_inline_group {0, 1, 2, 3, 4}
     ex_inline_shape_dict = Inr True"
proof -
  have run: "CanbeInline ex_inline_graph 0 [1, 2] (Some 3) 4 ex_inline_group {0, 1, 2, 3, 4}
      ex_inline_shape_dict = Some (Inr True)"
  proof -
    have down: "FindReducerInRoute ex_inline_graph 0 {0, 1, 2, 3, 4} GetConsumersInSet
        = Some (Some 3)"
      by (simp add: FindReducerInRoute_def FindReducerInRoute_loop.simps GetConsumersInSet_def
          ex_inline_graph_def)
    have up: "FindReducerInRoute ex_inline_graph 0 {0, 1, 2, 3, 4} GetProducersInSet
        = Some None"
      by (simp add: FindReducerInRoute_def FindReducerInRoute_loop.simps GetProducersInSet_def
          GetProducers_def List.map_filter_def ex_inline_graph_def)
    have shapes: "numel_differs (GetOutputShape ex_inline_graph 0 ex_inline_shape_dict)
        (GetInputShape ex_inline_graph 3 ex_inline_shape_dict) = Inr True"
      by code_simp
    have rules: "0 \<notin> output_nodes ex_inline_group" "\<not> IsConstOp ex_inline_graph 0"
      "\<not> list_ex (\<lambda>consumer. op_pattern ex_inline_graph consumer = kReduction) [1, 2]"
      "op_pattern ex_inline_graph 0 \<noteq> kReduction"
      by (simp_all add: ex_inline_group_def ex_inline_graph_def IsConstOp_def const_op_type_def)
    show ?thesis
      unfolding CanbeInline_def using rules down up shapes by simp
  qed
  show ?thesis
    using run
      CanbeInline_first_match
        [OF ex_inline_consumers_wf ex_inline_producers_wf ex_inline_shapes_fit,
        of 0 "[1, 2]" "Some 3" 4 ex_inline_group]
    by simp
qed

section \<open>Loop merger\<close>

lemma LoopComputeAt_attach_step:
  assumes "i < length node_loops" and "i < length master_loops"
  shows "LoopComputeAt_attach sch node_loops master_loops (int i) =
     (if extent (node_loops ! i) \<noteq> extent (master_loops ! i)
      then (if i = 0 then Done sch
            else LoopComputeAt_attach sch node_loops master_loops (int (i - 1)))
      else MergeLoops sch node_loops master_loops (int i))"
proof -
  have n: "at_index node_loops (int i) = Inr (node_loops ! i)"
    and m: "at_index master_loops (int i) = Inr (master_loops ! i)"
    using assms by (simp_all add: at_index_def)
  show ?thesis
  proof (cases i)
    case 0
    then show ?thesis
      using n m by (subst LoopComputeAt_attach.simps) simp
  next
    case (Suc i')
    then have "int i - 1 \<ge> 0" "int i - 1 = int (i - 1)" "i \<noteq> 0" by simp_all
    then show ?thesis
      by (subst LoopComputeAt_attach.simps) (simp only: n m sum.case if_False if_True)
  qed
qed

lemma LoopComputeAt_attach_found:
  assumes eq: "extent (node_loops ! k) = extent (master_loops ! k)"
    and kn: "k < length node_loops" and km: "k < length master_loops"
  shows "k \<le> i \<Longrightarrow> i < length node_loops \<Longrightarrow> i < length master_loops \<Longrightarrow>
     \<forall>j. k < j \<and> j \<le> i \<longrightarrow> extent (node_loops ! j) \<noteq> extent (master_loops ! j) \<Longrightarrow>
     LoopComputeAt_attach sch node_loops master_loops (int i)
       = MergeLoops sch node_loops master_loops (int k)"
proof (induction "i - k" arbitrary: i)
  case 0
  then have "i = k" by simp
  then show ?case
    using eq by (simp only: LoopComputeAt_attach_step [OF kn km]) simp
next
  case (Suc n)
  then have gt: "k < i" by linarith
  have ne: "extent (node_loops ! i) \<noteq> extent (master_loops ! i)"
    using Suc.prems(4) gt by simp
  have "LoopComputeAt_attach sch node_loops master_loops (int i)
      = LoopComputeAt_attach sch node_loops master_loops (int (i - 1))"
    using ne gt by (simp only: LoopComputeAt_attach_step [OF Suc.prems(2,3)]) simp
  moreover have "LoopComputeAt_attach sch node_loops master_loops (int (i - 1))
      = MergeLoops sch node_loops master_loops (int k)"
  proof (rule Suc.hyps(1))
    show "n = i - 1 - k" using Suc.hyps(2) by simp
    show "k \<le> i - 1" using gt by simp
    show "i - 1 < length node_loops" "i - 1 < length master_loops"
      using Suc.prems(2,3) by simp_all
    show "\<forall>j. k < j \<and> j \<le> i - 1 \<longrightarrow> extent (node_loops ! j) \<noteq> extent (master_loops ! j)"
      using Suc.prems(4) by (metis diff_le_self le_trans)
  qed
  ultimately show ?case by simp
qed

lemma LoopComputeAt_attach_none:
  "i < length node_loops \<Longrightarrow> i < length master_loops \<Longrightarrow>
   \<forall>j. j \<le> i \<longrightarrow> extent (node_loops ! j) \<noteq> extent (master_loops ! j) \<Longrightarrow>
   LoopComputeAt_attach sch node_loops master_loops (int i) = Done sch"
proof (induction i)
  case 0
  then show ?case
    by (simp only: LoopComputeAt_attach_step [OF 0(1,2)]) simp
next
  case (Suc i)
  have "LoopComputeAt_attach sch node_loops master_loops (int (Suc i))
      = LoopComputeAt_attach sch node_loops master_loops (int i)"
    using Suc.prems(3)
    by (simp only: LoopComputeAt_attach_step [OF Suc.prems(1,2)]) simp
  then show ?case using Suc by simp
qed

text \<open>
  Claim C6, as the code has it. For a node that is not a Reduction and a master other
  than the node, with loops around both blocks: \<^verbatim>\<open>LoopComputeAt\<close> calls \<^verbatim>\<open>MergeLoops\<close> at
  the deepest index below both loop counts at which the extents of the node's and the
  master's loop are equal; when they are equal at no index it merges nothing, and
  returns the schedule as its first step left it.
\<close>

theorem LoopComputeAt_merge_depth:
  assumes "op_pattern g node \<noteq> kReduction" and "node \<noteq> master"
    and "sch0 = LoopComputeAt_set_local g sch node grp"
    and "node_loops = GetLoops view sch0 (node_data_id g node)"
    and "LoopComputeAt_master_loops view g sch0 master tensor_map = Inr master_loops"
    and "node_loops \<noteq> []" and "master_loops \<noteq> []"
  shows "(k < min (length node_loops) (length master_loops) \<and>
        extent (node_loops ! k) = extent (master_loops ! k) \<and>
        (\<forall>j. k < j \<and> j < min (length node_loops) (length master_loops) \<longrightarrow>
           extent (node_loops ! j) \<noteq> extent (master_loops ! j)) \<longrightarrow>
      LoopComputeAt view reduce_to_reduce g sch node master grp shape_dict tensor_map
        = MergeLoops sch0 node_loops master_loops (int k)) \<and>
     ((\<forall>j. j < min (length node_loops) (length master_loops) \<longrightarrow>
           extent (node_loops ! j) \<noteq> extent (master_loops ! j)) \<longrightarrow>
      LoopComputeAt view reduce_to_reduce g sch node master grp shape_dict tensor_map
        = Done sch0)"
proof -
  obtain i where i: "min (length node_loops) (length master_loops) = Suc i"
    using assms(6,7) by (cases node_loops; cases master_loops) auto
  then have il: "i < length node_loops" "i < length master_loops" by linarith+
  have run: "LoopComputeAt view reduce_to_reduce g sch node master grp shape_dict tensor_map
      = LoopComputeAt_attach sch0 node_loops master_loops (int i)"
    using assms(1,2) assms(3,4) [symmetric] assms(5) i
    by (simp add: LoopComputeAt_def Let_def)
  have found: "LoopComputeAt_attach sch0 node_loops master_loops (int i)
      = MergeLoops sch0 node_loops master_loops (int k)"
    if "k < min (length node_loops) (length master_loops)"
      "extent (node_loops ! k) = extent (master_loops ! k)"
      "\<forall>j. k < j \<and> j < min (length node_loops) (length master_loops) \<longrightarrow>
           extent (node_loops ! j) \<noteq> extent (master_loops ! j)"
  proof (rule LoopComputeAt_attach_found [OF that(2)])
    show "k < length node_loops" "k < length master_loops" using that(1) by simp_all
    show "k \<le> i" using that(1) i by simp
    show "i < length node_loops" "i < length master_loops" by (rule il)+
    show "\<forall>j. k < j \<and> j \<le> i \<longrightarrow> extent (node_loops ! j) \<noteq> extent (master_loops ! j)"
      using that(3) i by simp
  qed
  have none: "LoopComputeAt_attach sch0 node_loops master_loops (int i) = Done sch0"
    if "\<forall>j. j < min (length node_loops) (length master_loops) \<longrightarrow>
           extent (node_loops ! j) \<noteq> extent (master_loops ! j)"
    using that i by (intro LoopComputeAt_attach_none il) simp
  show ?thesis using run found none by simp
qed

lemma ex_master_loops_2:
  "LoopComputeAt_master_loops ex_view ex_graph [SetBuffer ''var_0'' ''local'' True] 2 ex_tensor_map
     = Inr [\<lparr>loop_id = 2, extent = 4\<rparr>, \<lparr>loop_id = 3, extent = 16\<rparr>]"
  by (simp add: LoopComputeAt_master_loops_def ex_graph_def ex_view_def)

lemma ex_master_loops_1:
  "LoopComputeAt_master_loops ex_view ex_graph [SetBuffer ''var_0'' ''local'' True] 1 ex_tensor_map
     = Inr [\<lparr>loop_id = 4, extent = 2\<rparr>, \<lparr>loop_id = 5, extent = 512\<rparr>]"
  by (simp add: LoopComputeAt_master_loops_def ex_graph_def ex_view_def ex_tensor_map_def
      LoopComputeAt_real_master.simps to_string_def to_string_nat.simps)

lemma ex_set_local:
  "LoopComputeAt_set_local ex_graph [] 0 ex_group = [SetBuffer ''var_0'' ''local'' True]"
  by (simp add: LoopComputeAt_set_local_def ex_graph_def ex_group_def)

lemma ex_node_loops:
  "GetLoops ex_view sch ''var_0'' = [\<lparr>loop_id = 0, extent = 4\<rparr>, \<lparr>loop_id = 1, extent = 8\<rparr>]"
  by (simp add: ex_view_def)

lemma ex_LoopComputeAt_no_merge:
  "LoopComputeAt ex_view ex_reduce_to_reduce ex_graph [] 0 1 ex_group Map.empty ex_tensor_map
     = Done [SetBuffer ''var_0'' ''local'' True]"
  by code_simp

theorem LoopComputeAt_merge_depth_witness:
  "LoopComputeAt ex_view ex_reduce_to_reduce ex_graph [] 0 2 ex_group Map.empty ex_tensor_map
     = MergeLoops [SetBuffer ''var_0'' ''local'' True]
         [\<lparr>loop_id = 0, extent = 4\<rparr>, \<lparr>loop_id = 1, extent = 8\<rparr>]
         [\<lparr>loop_id = 2, extent = 4\<rparr>, \<lparr>loop_id = 3, extent = 16\<rparr>] 0 \<and>
   LoopComputeAt ex_view ex_reduce_to_reduce ex_graph [] 0 1 ex_group Map.empty ex_tensor_map
     = Done [SetBuffer ''var_0'' ''local'' True]"
proof -
  let ?nl = "[\<lparr>loop_id = 0, extent = 4\<rparr>, \<lparr>loop_id = 1, extent = 8\<rparr>]"
  let ?m2 = "[\<lparr>loop_id = 2, extent = 4\<rparr>, \<lparr>loop_id = 3, extent = 16\<rparr>]"
  let ?m1 = "[\<lparr>loop_id = 4, extent = 2\<rparr>, \<lparr>loop_id = 5, extent = 512\<rparr>]"
  have p: "op_pattern ex_graph 0 \<noteq> kReduction" by (simp add: ex_graph_def)
  have n: "?nl = GetLoops ex_view [SetBuffer ''var_0'' ''local'' True] (node_data_id ex_graph 0)"
    by (simp add: ex_view_def ex_graph_def)
  have h2: "0 < min (length ?nl) (length ?m2) \<and> extent (?nl ! 0) = extent (?m2 ! 0) \<and>
      (\<forall>j. 0 < j \<and> j < min (length ?nl) (length ?m2) \<longrightarrow>
         extent (?nl ! j) \<noteq> extent (?m2 ! j))"
  proof (intro conjI allI impI)
    fix j :: nat assume "0 < j \<and> j < min (length ?nl) (length ?m2)"
    then have "j = 1" by simp
    then show "extent (?nl ! j) \<noteq> extent (?m2 ! j)" by simp
  qed simp_all
  have h1: "\<forall>j. j < min (length ?nl) (length ?m1) \<longrightarrow> extent (?nl ! j) \<noteq> extent (?m1 ! j)"
  proof (intro allI impI)
    fix j :: nat assume "j < min (length ?nl) (length ?m1)"
    then have "j = 0 \<or> j = 1" by auto
    then show "extent (?nl ! j) \<noteq> extent (?m1 ! j)" by auto
  qed
  have a: "LoopComputeAt ex_view ex_reduce_to_reduce ex_graph [] 0 2 ex_group Map.empty
        ex_tensor_map = MergeLoops [SetBuffer ''var_0'' ''local'' True] ?nl ?m2 (int 0)"
    using LoopComputeAt_merge_depth [OF p _ ex_set_local [symmetric] n ex_master_loops_2,
        of 0 ex_reduce_to_reduce Map.empty] h2
    by simp
  have b: "LoopComputeAt ex_view ex_reduce_to_reduce ex_graph [] 0 1 ex_group Map.empty
        ex_tensor_map = Done [SetBuffer ''var_0'' ''local'' True]"
    using LoopComputeAt_merge_depth [OF p _ ex_set_local [symmetric] n ex_master_loops_1,
        of 0 ex_reduce_to_reduce Map.empty] h1
    by simp
  show ?thesis using a b by simp
qed

text \<open>
  C6 as stated fails in its last part: the loops of \<open>var_0\<close> have the extents \<open>4\<close> and \<open>8\<close>,
  those of its master \<open>var_1\<close> the extents \<open>2\<close> and \<open>512\<close>; no index has equal extents,
  and \<^verbatim>\<open>LoopComputeAt\<close> returns without the merge at index \<open>0\<close>.
\<close>

theorem LoopComputeAt_counterexample:
  "LoopComputeAt ex_view ex_reduce_to_reduce ex_graph [] 0 1 ex_group Map.empty ex_tensor_map
     = Done [SetBuffer ''var_0'' ''local'' True] \<and>
   MergeLoops [SetBuffer ''var_0'' ''local'' True]
       [\<lparr>loop_id = 0, extent = 4\<rparr>, \<lparr>loop_id = 1, extent = 8\<rparr>]
       [\<lparr>loop_id = 4, extent = 2\<rparr>, \<lparr>loop_id = 5, extent = 512\<rparr>] 0
     = Done [SetBuffer ''var_0'' ''local'' True,
         MergeLoopsBody [\<lparr>loop_id = 0, extent = 4\<rparr>, \<lparr>loop_id = 1, extent = 8\<rparr>]
           [\<lparr>loop_id = 4, extent = 2\<rparr>, \<lparr>loop_id = 5, extent = 512\<rparr>] 0]"
  using ex_LoopComputeAt_no_merge by (simp add: MergeLoops_def)

lemma MergeLoops_in_bounds:
  "index < int (length src) \<Longrightarrow> index < int (length dst) \<Longrightarrow>
   \<not> MergeLoops_bound_failure (MergeLoops sch src dst index)"
  by (simp add: MergeLoops_def)

lemma MergeLoops_bound_failure_and_then:
  "\<not> MergeLoops_bound_failure out \<Longrightarrow> (\<And>s. \<not> MergeLoops_bound_failure (f s)) \<Longrightarrow>
   \<not> MergeLoops_bound_failure (and_then out f)"
  by (cases out) simp_all

lemma MergeReduceLoop_match_cases:
  "MergeReduceLoop_match src_loops dst_loops index =
     (if 0 \<le> index + 1 \<and> index + 1 < int (length src_loops) \<and> index + 1 < int (length dst_loops)
      then
        (if extent (src_loops ! nat (index + 1)) = extent (dst_loops ! nat (index + 1)) then
           (if int (length src_loops) = index + 1 + 1 \<or> int (length dst_loops) = index + 1 + 1
            then Inr (index + 1)
            else MergeReduceLoop_match src_loops dst_loops (index + 1))
         else Inr index)
      else Inl IndexOutOfBounds)"
  by (subst MergeReduceLoop_match.simps) (auto simp: at_index_def)

lemma MergeReduceLoop_match_result:
  "(case MergeReduceLoop_match src_loops dst_loops index of
      Inl e \<Rightarrow> e = IndexOutOfBounds
    | Inr r \<Rightarrow> r < int (length src_loops) \<and> r < int (length dst_loops))"
proof (induction src_loops dst_loops index rule: MergeReduceLoop_match.induct)
  case (1 src_loops dst_loops index)
  show ?case
  proof (cases "0 \<le> index + 1 \<and> index + 1 < int (length src_loops) \<and>
      index + 1 < int (length dst_loops)")
    case False
    show ?thesis by (subst MergeReduceLoop_match_cases) (simp only: False if_False sum.case)
  next
    case inb: True
    then have s: "at_index src_loops (index + 1) = Inr (src_loops ! nat (index + 1))"
      and d: "at_index dst_loops (index + 1) = Inr (dst_loops ! nat (index + 1))"
      by (simp_all add: at_index_def)
    show ?thesis
    proof (cases "extent (src_loops ! nat (index + 1)) = extent (dst_loops ! nat (index + 1))")
      case False
      then show ?thesis using inb by (subst MergeReduceLoop_match_cases) simp
    next
      case eq: True
      show ?thesis
      proof (cases "int (length src_loops) = index + 1 + 1 \<or>
          int (length dst_loops) = index + 1 + 1")
        case True
        then show ?thesis using inb eq by (subst MergeReduceLoop_match_cases) auto
      next
        case False
        have "MergeReduceLoop_match src_loops dst_loops index
            = MergeReduceLoop_match src_loops dst_loops (index + 1)"
          using inb eq False by (subst MergeReduceLoop_match_cases) simp
        then show ?thesis using "1.IH" [OF s d eq False] by simp
      qed
    qed
  qed
qed

lemma MergeReduceLoop_stages_bounds:
  "\<not> MergeLoops_bound_failure
       (snd (MergeReduceLoop_stages view tensor_map node_id idx post1 post2 min_index_loop sch))"
proof (induction view tensor_map node_id idx post1 post2 min_index_loop sch
    rule: MergeReduceLoop_stages.induct)
  case (1 view tensor_map node_id idx post1 post2 min_index_loop sch)
  show ?case
  proof (cases "tensor_map (node_id @ post2)")
    case None
    then show ?thesis by (subst MergeReduceLoop_stages.simps) (simp add: Let_def)
  next
    case t2: (Some tensor2)
    show ?thesis
    proof (cases "tensor_map (node_id @ post1)")
      case None
      then show ?thesis using t2 by (subst MergeReduceLoop_stages.simps) (simp add: Let_def)
    next
      case t1: (Some tensor1)
      show ?thesis
      proof (cases "HasBlock view sch (tensor_name tensor2)")
        case False
        then show ?thesis using t1 t2 by (subst MergeReduceLoop_stages.simps) (simp add: Let_def)
      next
        case hb: True
        let ?dst = "GetLoops view sch (tensor_name tensor1)"
        let ?src = "GetLoops view sch (tensor_name tensor2)"
        have nhb: "\<not> \<not> HasBlock view sch (tensor_name tensor2)" using hb by simp
        show ?thesis
        proof (cases "MergeReduceLoop_match ?src ?dst (- 1)")
          case (Inl e)
          then have "e = IndexOutOfBounds"
            using MergeReduceLoop_match_result [of ?src ?dst "- 1"] by simp
          then show ?thesis
            using t1 t2 hb Inl by (subst MergeReduceLoop_stages.simps) (simp add: Let_def)
        next
          case (Inr index)
          have b: "index < int (length ?src) \<and> index < int (length ?dst)"
            using MergeReduceLoop_match_result [of ?src ?dst "- 1"] Inr by simp
          have ok: "\<not> MergeLoops_bound_failure (MergeLoops sch ?src ?dst index)"
            using b by (intro MergeLoops_in_bounds) simp_all
          show ?thesis
          proof (cases "MergeLoops sch ?src ?dst index")
            case (Fatal e sch')
            then show ?thesis
              using t1 t2 hb Inr ok by (subst MergeReduceLoop_stages.simps) (simp add: Let_def)
          next
            case (Done sch')
            show ?thesis
            proof (cases "idx \<ge> 2147483647")
              case True
              then show ?thesis
                using t1 t2 hb Inr Done by (subst MergeReduceLoop_stages.simps) (simp add: Let_def)
            next
              case False
              have "\<not> MergeLoops_bound_failure
                  (snd (MergeReduceLoop_stages view tensor_map node_id (idx + 1)
                     (''_'' @ to_string idx) (''_'' @ to_string (idx + 1))
                     (min min_index_loop index) sch'))"
                by (rule "1.IH" [OF t2 t1 nhb refl refl Inr Done False])
              then show ?thesis
                using t1 t2 hb Inr Done False by (subst MergeReduceLoop_stages.simps) (simp add: Let_def)
            qed
          qed
        qed
      qed
    qed
  qed
qed

lemma InsertSyncThread_bounds:
  "\<not> MergeLoops_bound_failure (InsertSyncThread view g sch node shape_dict tensor_map)"
  by (simp add: InsertSyncThread_def at_index_def Let_def
      split: sum.splits option.splits prod.splits list.splits)

lemma MergeReduceLoop_attach_bounds:
  "\<not> MergeLoops_bound_failure
       (MergeReduceLoop_attach view sch node_id master_id node_loops master_loops
          min_index_loop index)"
proof (induction view sch node_id master_id node_loops master_loops min_index_loop index
    rule: MergeReduceLoop_attach.induct)
  case (1 view sch node_id master_id node_loops master_loops min_index_loop index)
  show ?case
  proof (cases "0 \<le> index \<and> index < int (length node_loops) \<and>
      index < int (length master_loops)")
    case False
    then show ?thesis
      by (subst MergeReduceLoop_attach.simps) (auto simp: at_index_def)
  next
    case inb: True
    then have n: "at_index node_loops index = Inr (node_loops ! nat index)"
      and m: "at_index master_loops index = Inr (master_loops ! nat index)"
      by (simp_all add: at_index_def)
    show ?thesis
    proof (cases "extent (node_loops ! nat index) \<noteq> extent (master_loops ! nat index)")
      case ne: True
      show ?thesis
      proof (cases "index - 1 \<ge> 0")
        case True
        then show ?thesis
          using n m ne "1.IH" [OF n m ne True]
          by (subst MergeReduceLoop_attach.simps) simp
      next
        case False
        then show ?thesis
          using n m ne by (subst MergeReduceLoop_attach.simps) simp
      qed
    next
      case False
      have "\<not> MergeLoops_bound_failure
          (MergeLoops sch node_loops master_loops (min index min_index_loop))"
        using inb by (intro MergeLoops_in_bounds) (simp_all add: min_less_iff_disj)
      then have "\<not> MergeLoops_bound_failure
          (and_then (MergeLoops sch node_loops master_loops (min index min_index_loop))
             (\<lambda>sch1.
                if index > min_index_loop then
                  (case GetLoops view sch1 master_id of
                     [] \<Rightarrow> Fatal IndexOutOfBounds sch1
                   | l # ls \<Rightarrow> Done (sch1 @ [SimpleComputeAt node_id (last (l # ls))]))
                else Done sch1))"
        by (rule MergeLoops_bound_failure_and_then) (simp split: list.splits)
      then show ?thesis
        using n m False by (subst MergeReduceLoop_attach.simps) simp
    qed
  qed
qed

lemma LoopComputeAt_attach_bounds:
  "\<not> MergeLoops_bound_failure (LoopComputeAt_attach sch node_loops master_loops index)"
proof (induction sch node_loops master_loops index rule: LoopComputeAt_attach.induct)
  case (1 sch node_loops master_loops index)
  show ?case
  proof (cases "0 \<le> index \<and> index < int (length node_loops) \<and>
      index < int (length master_loops)")
    case False
    then show ?thesis
      by (subst LoopComputeAt_attach.simps) (auto simp: at_index_def)
  next
    case inb: True
    then have n: "at_index node_loops index = Inr (node_loops ! nat index)"
      and m: "at_index master_loops index = Inr (master_loops ! nat index)"
      by (simp_all add: at_index_def)
    show ?thesis
    proof (cases "extent (node_loops ! nat index) \<noteq> extent (master_loops ! nat index)")
      case ne: True
      show ?thesis
      proof (cases "index - 1 \<ge> 0")
        case True
        then show ?thesis
          using n m ne "1.IH" [OF n m ne True]
          by (subst LoopComputeAt_attach.simps) simp
      next
        case False
        then show ?thesis
          using n m ne by (subst LoopComputeAt_attach.simps) simp
      qed
    next
      case False
      have "\<not> MergeLoops_bound_failure (MergeLoops sch node_loops master_loops index)"
        using inb by (intro MergeLoops_in_bounds) simp_all
      then show ?thesis
        using n m False by (subst LoopComputeAt_attach.simps) simp
    qed
  qed
qed

lemma LoopComputeAt_master_loops_error:
  "LoopComputeAt_master_loops view g sch master tensor_map = Inl e \<Longrightarrow>
   e = SignedOverflow \<or> e = EndIterator"
proof -
  have r: "LoopComputeAt_real_master view sch tensor_map master_id idx prefix post = Inl e \<Longrightarrow>
      e = SignedOverflow" for master_id idx prefix post
  proof (induction view sch tensor_map master_id idx prefix post
      rule: LoopComputeAt_real_master.induct)
    case (1 view sch tensor_map master_id idx prefix post)
    from "1.prems" show ?case
      by (subst (asm) LoopComputeAt_real_master.simps)
        (auto split: option.splits if_splits dest: "1.IH")
  qed
  show "LoopComputeAt_master_loops view g sch master tensor_map = Inl e \<Longrightarrow>
      e = SignedOverflow \<or> e = EndIterator"
    by (auto simp: LoopComputeAt_master_loops_def split: if_splits sum.splits option.splits
        dest: r)
qed

text \<open>
  Claim C7. \<^verbatim>\<open>MergeReduceLoop\<close> and \<^verbatim>\<open>LoopComputeAt\<close> call \<^verbatim>\<open>MergeLoops\<close> only with an index
  below the lengths of both loop vectors: the index comes from a scan that has read both
  vectors at it, or is the smaller of such an index and \<^verbatim>\<open>min_index_loop\<close>. So neither
  function ever stops at one of the two bound checks of \<^verbatim>\<open>MergeLoops\<close>, unless
  \<^verbatim>\<open>MergeReduceToReduce\<close>, to which the merge of a reduction into another reduction is
  handed over, stops there in a call of its own.
\<close>

theorem MergeLoops_bound_checks_hold:
  assumes "\<forall>sch' node' master'. \<not> MergeLoops_bound_failure (reduce_to_reduce sch' node' master')"
  shows "\<not> MergeLoops_bound_failure
           (MergeReduceLoop view reduce_to_reduce g sch node master shape_dict tensor_map) \<and>
         \<not> MergeLoops_bound_failure
           (LoopComputeAt view reduce_to_reduce g sch node master grp shape_dict tensor_map)"
proof -
  have mrl: "\<not> MergeLoops_bound_failure
      (MergeReduceLoop view reduce_to_reduce g s node master shape_dict tensor_map)" for s
  proof (cases "op_pattern g master = kReduction \<and> node \<noteq> master")
    case True
    then show ?thesis using assms by (simp add: MergeReduceLoop_def)
  next
    case False
    obtain m out where st: "MergeReduceLoop_stages view tensor_map (node_data_id g node) 0 []
        ''_0'' 2147483647 s = (m, out)"
      by (cases "MergeReduceLoop_stages view tensor_map (node_data_id g node) 0 []
        ''_0'' 2147483647 s")
    have o: "\<not> MergeLoops_bound_failure out"
      using MergeReduceLoop_stages_bounds [of view tensor_map "node_data_id g node" 0 "[]"
          "''_0''" 2147483647 s] st by simp
    show ?thesis
    proof (cases out)
      case (Fatal e s')
      then show ?thesis using False st o by (auto simp: MergeReduceLoop_def)
    next
      case (Done s1)
      have "\<not> MergeLoops_bound_failure
          (and_then (InsertSyncThread view g s1 node shape_dict tensor_map)
             (\<lambda>sch2.
                if node = master then Done sch2
                else
                  (let node_loops = GetLoops view sch2 (node_data_id g node);
                       master_loops = GetLoops view sch2 (node_data_id g master)
                   in MergeReduceLoop_attach view sch2 (node_data_id g node)
                        (node_data_id g master) node_loops master_loops m
                        (int (min (length node_loops) (length master_loops)) - 1))))"
        by (rule MergeLoops_bound_failure_and_then [OF InsertSyncThread_bounds])
          (simp add: Let_def MergeReduceLoop_attach_bounds)
      then show ?thesis using False st Done by (auto simp: MergeReduceLoop_def)
    qed
  qed
  have lca: "\<not> MergeLoops_bound_failure
      (LoopComputeAt view reduce_to_reduce g sch node master grp shape_dict tensor_map)"
  proof (cases "op_pattern g node = kReduction")
    case True
    then show ?thesis using mrl by (simp add: LoopComputeAt_def Let_def)
  next
    case False
    show ?thesis
    proof (cases "LoopComputeAt_master_loops view g (LoopComputeAt_set_local g sch node grp)
        master tensor_map")
      case (Inl e)
      then have "e = SignedOverflow \<or> e = EndIterator"
        by (rule LoopComputeAt_master_loops_error)
      then show ?thesis using False Inl by (auto simp: LoopComputeAt_def Let_def)
    next
      case (Inr master_loops)
      then show ?thesis
        using False by (simp add: LoopComputeAt_def Let_def LoopComputeAt_attach_bounds)
    qed
  qed
  show ?thesis using mrl lca by simp
qed

theorem MergeLoops_bound_checks_hold_witness:
  "(\<forall>sch' node' master'. \<not> MergeLoops_bound_failure (ex_reduce_to_reduce sch' node' master')) \<and>
   \<not> MergeLoops_bound_failure
       (MergeReduceLoop ex_view ex_reduce_to_reduce ex_graph [] 1 1 ex_shape_dict ex_tensor_map) \<and>
   \<not> MergeLoops_bound_failure
       (LoopComputeAt ex_view ex_reduce_to_reduce ex_graph [] 0 2 ex_group ex_shape_dict
          ex_tensor_map)"
proof -
  have h: "\<forall>sch' node' master'. \<not> MergeLoops_bound_failure (ex_reduce_to_reduce sch' node' master')"
    by (simp add: ex_reduce_to_reduce_def)
  show ?thesis
    using h MergeLoops_bound_checks_hold [OF h, of ex_view ex_graph "[]" 1 1 ex_shape_dict
        ex_tensor_map ex_group]
      MergeLoops_bound_checks_hold [OF h, of ex_view ex_graph "[]" 0 2 ex_shape_dict
        ex_tensor_map ex_group]
    by simp
qed

section \<open>Synchronization inserter\<close>

lemma check_sync_mark_scan_True:
  "check_sync_mark_scan exprs_inorder sync_mark m_id idx = Inr True \<Longrightarrow> m_id \<notin> set sync_mark"
proof (induction exprs_inorder sync_mark m_id idx rule: check_sync_mark_scan.induct)
  case (1 exprs_inorder sync_mark m_id idx)
  show ?case
  proof (cases "at_index exprs_inorder idx")
    case (Inl e)
    then show ?thesis using "1.prems" by (subst (asm) check_sync_mark_scan.simps) simp
  next
    case (Inr block_name)
    show ?thesis
    proof (cases "block_name \<in> set sync_mark")
      case True
      then show ?thesis
        using "1.prems" Inr by (subst (asm) check_sync_mark_scan.simps) simp
    next
      case nm: False
      show ?thesis
      proof (cases "block_name = m_id")
        case True
        then show ?thesis using nm by simp
      next
        case False
        have "check_sync_mark_scan exprs_inorder sync_mark m_id (idx + 1) = Inr True"
          using "1.prems" Inr nm False by (subst (asm) check_sync_mark_scan.simps) simp
        then show ?thesis by (rule "1.IH" [OF Inr nm False])
      qed
    qed
  qed
qed

lemma check_sync_mark_True:
  "check_sync_mark exprs_inorder sync_mark start m_id = Inr True \<Longrightarrow> m_id \<notin> set sync_mark"
  by (auto simp: check_sync_mark_def split: if_splits dest: check_sync_mark_scan_True)

lemma shared_then_barrier_SetBuffer [simp]:
  "shared_then_barrier op1 (SetBuffer block_name scope flag) = None"
  by (cases op1) simp_all

lemma barrier_events_snoc:
  "barrier_events applied (ops @ [op2]) =
     barrier_events applied ops @
     (if ops = [] then []
      else case shared_then_barrier (last ops) op2 of
             Some (block_name, loop) \<Rightarrow> [(block_name, applied @ ops, loop)]
           | None \<Rightarrow> [])"
proof (induction ops arbitrary: applied)
  case Nil
  show ?case by simp
next
  case (Cons op1 ops)
  show ?case
  proof (cases ops)
    case Nil
    then show ?thesis by (simp split: option.splits)
  next
    case tail: (Cons op1' ops')
    show ?thesis
      using Cons.IH [of "applied @ [op1]"] by (simp add: tail split: option.splits)
  qed
qed

lemma barrier_events_shared:
  "barrier_events applied (ops @ [SetBuffer block_name scope flag]) = barrier_events applied ops"
  by (simp add: barrier_events_snoc)

lemma barrier_events_barrier:
  "barrier_events applied (ops @ [SetBuffer block_name scope flag, SyncThreads loop all_threads])
   = barrier_events applied ops
     @ [(block_name, applied @ ops @ [SetBuffer block_name scope flag], loop)]"
  using barrier_events_snoc [of applied "ops @ [SetBuffer block_name scope flag]"
      "SyncThreads loop all_threads"]
  by (simp add: barrier_events_snoc)

lemma barriers_inv_append:
  "barriers_inv view g nodes_inline nodes_set sch sync_mark (sch @ ins) \<longleftrightarrow>
     distinct sync_mark \<and>
     map (\<lambda>event. map_option (node_data_id g) (event_master g nodes_inline nodes_set event))
       (barrier_events sch ins) = map Some sync_mark \<and>
     length (filter is_SyncThreads ins) = length (barrier_events sch ins) \<and>
     list_all (after_last_loop view g nodes_inline nodes_set) (barrier_events sch ins)"
  by (simp add: barriers_inv_def Let_def)

lemma barriers_inv_extends:
  "barriers_inv view g nodes_inline nodes_set sch sync_mark cur \<Longrightarrow>
   cur = sch @ drop (length sch) cur"
  by (metis append_take_drop_id barriers_inv_def)

lemma barriers_inv_shared:
  assumes "barriers_inv view g nodes_inline nodes_set sch sync_mark cur"
  shows "barriers_inv view g nodes_inline nodes_set sch sync_mark
     (cur @ [SetBuffer block_name scope flag])"
proof -
  obtain ins where cur: "cur = sch @ ins" using barriers_inv_extends [OF assms] ..
  show ?thesis
    using assms unfolding cur append_assoc barriers_inv_append
    by (simp add: barrier_events_shared)
qed

lemma barriers_inv_barrier:
  assumes "barriers_inv view g nodes_inline nodes_set sch sync_mark cur"
    and "GetNodeDataSet g nodes_set block_name = Some node"
    and "GetMaster g node nodes_inline nodes_set = Some master"
    and "node_data_id g master \<notin> set sync_mark"
    and "GetLoops view (cur @ [SetBuffer block_name scope flag]) (node_data_id g master) \<noteq> []"
  shows "barriers_inv view g nodes_inline nodes_set sch (sync_mark @ [node_data_id g master])
     (cur @ [SetBuffer block_name scope flag,
        SyncThreads (last (GetLoops view (cur @ [SetBuffer block_name scope flag])
          (node_data_id g master))) all_threads])"
proof -
  obtain ins where cur: "cur = sch @ ins" using barriers_inv_extends [OF assms(1)] ..
  show ?thesis
    using assms unfolding cur append_assoc barriers_inv_append
    by (simp add: barrier_events_barrier event_master_def after_last_loop_def
        master_of_block_def)
qed

lemma SyncThreadWithShared_round_cases:
  fixes view g nodes_inline nodes_set shape_dict exprs_inorder node_data_set idx sync_mark cur
  defines "round \<equiv> SyncThreadWithShared_round view g nodes_inline nodes_set shape_dict
      exprs_inorder node_data_set idx sync_mark cur"
    and "shared \<equiv> SetBuffer (exprs_inorder ! nat idx) ''shared'' True"
  shows "round = Inl (sync_mark, cur) \<or> (\<exists>e. round = Inr (sync_mark, Fatal e cur)) \<or>
     (\<exists>e. round = Inr (sync_mark, Fatal e (cur @ [shared]))) \<or>
     round = Inl (sync_mark, cur @ [shared]) \<or>
     (\<exists>node master.
        node_data_set (exprs_inorder ! nat idx) = Some node \<and>
        GetMaster g node nodes_inline nodes_set = Some master \<and>
        check_sync_mark exprs_inorder sync_mark idx (node_data_id g master) = Inr True \<and>
        GetLoops view (cur @ [shared]) (node_data_id g master) \<noteq> [] \<and>
        round = Inl (sync_mark @ [node_data_id g master],
          cur @ [shared,
            SyncThreads (last (GetLoops view (cur @ [shared]) (node_data_id g master))) False]))"
  unfolding round_def shared_def SyncThreadWithShared_round_def Let_def
  by (auto split: option.splits sum.splits list.splits bool.splits)

lemma SyncThreadWithShared_round_inv:
  assumes inv: "barriers_inv view g nodes_inline nodes_set sch sync_mark cur"
  shows "case SyncThreadWithShared_round view g nodes_inline nodes_set shape_dict exprs_inorder
             (GetNodeDataSet g nodes_set) idx sync_mark cur of
           Inl (sync_mark', cur') \<Rightarrow> barriers_inv view g nodes_inline nodes_set sch sync_mark' cur'
         | Inr (sync_mark', out) \<Rightarrow>
             barriers_inv view g nodes_inline nodes_set sch sync_mark' (schedule_of out)"
proof -
  let ?round = "SyncThreadWithShared_round view g nodes_inline nodes_set shape_dict
      exprs_inorder (GetNodeDataSet g nodes_set) idx sync_mark cur"
  let ?shared = "SetBuffer (exprs_inorder ! nat idx) ''shared'' True"
  note shared = barriers_inv_shared [OF inv, of "exprs_inorder ! nat idx" "''shared''" True]
  consider "?round = Inl (sync_mark, cur)" | e where "?round = Inr (sync_mark, Fatal e cur)"
    | e where "?round = Inr (sync_mark, Fatal e (cur @ [?shared]))"
    | "?round = Inl (sync_mark, cur @ [?shared])"
    | node master where "GetNodeDataSet g nodes_set (exprs_inorder ! nat idx) = Some node"
        "GetMaster g node nodes_inline nodes_set = Some master"
        "check_sync_mark exprs_inorder sync_mark idx (node_data_id g master) = Inr True"
        "GetLoops view (cur @ [?shared]) (node_data_id g master) \<noteq> []"
        "?round = Inl (sync_mark @ [node_data_id g master],
          cur @ [?shared,
            SyncThreads (last (GetLoops view (cur @ [?shared]) (node_data_id g master))) False])"
    using SyncThreadWithShared_round_cases [of view g nodes_inline nodes_set shape_dict
        exprs_inorder "GetNodeDataSet g nodes_set" idx sync_mark cur]
    by blast
  then show ?thesis
  proof cases
    case 1
    then show ?thesis using inv by simp
  next
    case 2
    then show ?thesis using inv by simp
  next
    case 3
    then show ?thesis using shared by simp
  next
    case 4
    then show ?thesis using shared by simp
  next
    case 5
    have "node_data_id g master \<notin> set sync_mark"
      using 5(3) by (rule check_sync_mark_True)
    from barriers_inv_barrier [OF inv 5(1,2) this 5(4), of False]
    show ?thesis by (simp only: 5(5) sum.case prod.case)
  qed
qed

lemma SyncThreadWithShared_loop_inv:
  "barriers_inv view g nodes_inline nodes_set sch sync_mark cur \<Longrightarrow>
   node_data_set = GetNodeDataSet g nodes_set \<Longrightarrow>
   barriers_inv view g nodes_inline nodes_set sch
     (fst (SyncThreadWithShared_loop view g nodes_inline nodes_set shape_dict exprs_inorder
             node_data_set idx sync_mark cur))
     (schedule_of (snd (SyncThreadWithShared_loop view g nodes_inline nodes_set shape_dict
             exprs_inorder node_data_set idx sync_mark cur)))"
proof (induction view g nodes_inline nodes_set shape_dict exprs_inorder node_data_set idx
    sync_mark cur rule: SyncThreadWithShared_loop.induct)
  case (1 view g nodes_inline nodes_set shape_dict exprs_inorder node_data_set idx sync_mark cur)
  note inv = "1.prems"(1) and nds = "1.prems"(2)
  show ?case
  proof (cases "0 \<le> idx \<and> idx < int (length exprs_inorder) - 1")
    case False
    show ?thesis
      by (subst (1 2) SyncThreadWithShared_loop.simps)
        (simp only: False if_False fst_conv snd_conv schedule_of.simps inv)
  next
    case c: True
    show ?thesis
    proof (cases "SyncThreadWithShared_round view g nodes_inline nodes_set shape_dict
        exprs_inorder node_data_set idx sync_mark cur")
      case (Inr stop)
      then show ?thesis
        using SyncThreadWithShared_round_inv [OF inv, of shape_dict exprs_inorder idx] c nds
        by (subst (1 2) SyncThreadWithShared_loop.simps) (simp add: case_prod_beta)
    next
      case (Inl go)
      obtain sync_mark' cur' where go: "go = (sync_mark', cur')" by (cases go)
      have inv': "barriers_inv view g nodes_inline nodes_set sch sync_mark' cur'"
        using SyncThreadWithShared_round_inv [OF inv, of shape_dict exprs_inorder idx] Inl go nds
        by simp
      show ?thesis
        using "1.IH" [OF c Inl go [symmetric] inv' nds] c Inl go
        by (subst (1 2) SyncThreadWithShared_loop.simps) simp
    qed
  qed
qed

lemma SyncThreadWithShared_marks_inv:
  "barriers_inv view g nodes_inline nodes_set sch
     (fst (SyncThreadWithShared_marks view g sch nodes_inline nodes_set shape_dict))
     (schedule_of (SyncThreadWithShared view g sch nodes_inline nodes_set shape_dict))"
proof -
  have init: "barriers_inv view g nodes_inline nodes_set sch [] sch"
    by (simp add: barriers_inv_def)
  show ?thesis
  proof (cases "GetAllBlocks view sch = []")
    case True
    then show ?thesis
      using init by (simp add: SyncThreadWithShared_def SyncThreadWithShared_marks_def)
  next
    case False
    then show ?thesis
      using SyncThreadWithShared_loop_inv [OF init refl]
      by (simp add: SyncThreadWithShared_def SyncThreadWithShared_marks_def Let_def)
  qed
qed

lemma distinct_map_filter_le_1:
  "distinct (map f xs) \<Longrightarrow> length (filter (\<lambda>x. f x = y) xs) \<le> Suc 0"
  by (induction xs) (auto simp: filter_empty_conv image_iff)

text \<open>
  Claim C8. Over one run of \<^verbatim>\<open>SyncThreadWithShared\<close>, whatever its outcome: the schedule
  is the one of the call with operations appended; every barrier among them directly
  follows the \<^verbatim>\<open>SetBuffer\<close> of a shared-buffer block, which makes it a barrier event;
  the barrier of every event is after the last loop of the master of the node of that
  block; and for every node, at most one barrier event has that node as master, however
  many shared-buffer nodes it is the master of.
\<close>

theorem SyncThreadWithShared_barrier_once:
  "schedule_of (SyncThreadWithShared view g sch nodes_inline nodes_set shape_dict)
     = sch @ inserted sch (SyncThreadWithShared view g sch nodes_inline nodes_set shape_dict) \<and>
   length (filter is_SyncThreads
       (inserted sch (SyncThreadWithShared view g sch nodes_inline nodes_set shape_dict)))
     = length (SyncThreadWithShared_barriers view g sch nodes_inline nodes_set shape_dict) \<and>
   list_all (after_last_loop view g nodes_inline nodes_set)
     (SyncThreadWithShared_barriers view g sch nodes_inline nodes_set shape_dict) \<and>
   (\<forall>master. length (filter (\<lambda>event. event_master g nodes_inline nodes_set event = Some master)
       (SyncThreadWithShared_barriers view g sch nodes_inline nodes_set shape_dict)) \<le> 1)"
proof -
  let ?out = "SyncThreadWithShared view g sch nodes_inline nodes_set shape_dict"
  let ?marks = "fst (SyncThreadWithShared_marks view g sch nodes_inline nodes_set shape_dict)"
  let ?events = "barrier_events sch (inserted sch ?out)"
  let ?ids = "\<lambda>event. map_option (node_data_id g) (event_master g nodes_inline nodes_set event)"
  have inv: "barriers_inv view g nodes_inline nodes_set sch ?marks (schedule_of ?out)"
    by (rule SyncThreadWithShared_marks_inv)
  have ext: "schedule_of ?out = sch @ inserted sch ?out"
    using barriers_inv_extends [OF inv] by (simp add: inserted_def)
  have parts: "distinct ?marks" "map ?ids ?events = map Some ?marks"
    "length (filter is_SyncThreads (inserted sch ?out)) = length ?events"
    "list_all (after_last_loop view g nodes_inline nodes_set) ?events"
    using inv by (simp_all add: barriers_inv_def Let_def inserted_def)
  have ids: "map ?ids ?events
      = map (map_option (node_data_id g)) (map (event_master g nodes_inline nodes_set) ?events)"
    by simp
  have "distinct (map ?ids ?events)"
    using parts(1,2) by (simp add: distinct_map)
  then have "distinct (map (event_master g nodes_inline nodes_set) ?events)"
    unfolding ids by (rule distinct_map [THEN iffD1, THEN conjunct1])
  then have once: "length (filter (\<lambda>event. event_master g nodes_inline nodes_set event
      = Some master) ?events) \<le> 1" for master
    using distinct_map_filter_le_1 [of "event_master g nodes_inline nodes_set" ?events] by simp
  show ?thesis
    using ext parts(3,4) once by (simp add: SyncThreadWithShared_barriers_def)
qed


lemma ex_sync_run:
  "SyncThreadWithShared (ex_sync_view [''var_0'', ''var_3'', ''var_2'']) ex_sync_graph []
     {} [0, 3, 2] ex_sync_shape_dict
   = Done [SetBuffer ''var_0'' ''shared'' True, SyncThreads \<lparr>loop_id = 3, extent = 8\<rparr> False,
           SetBuffer ''var_3'' ''shared'' True]"
  by code_simp

lemma ex_sync_masters:
  "GetMaster ex_sync_graph 0 {} [0, 3, 2] = Some 2"
  "GetMaster ex_sync_graph 3 {} [0, 3, 2] = Some 2"
  "GetMaster ex_sync_graph 2 {} [0, 3, 2] = None"
  by code_simp+

lemma ex_sync_node_data_set:
  "GetNodeDataSet ex_sync_graph [0, 3, 2] = [''var_0'' \<mapsto> 0, ''var_3'' \<mapsto> 3, ''var_2'' \<mapsto> 2]"
  by (simp add: GetNodeDataSet_def ex_sync_graph_def)

theorem SyncThreadWithShared_barrier_once_witness:
  "SyncThreadWithShared (ex_sync_view [''var_0'', ''var_3'', ''var_2'']) ex_sync_graph []
     {} [0, 3, 2] ex_sync_shape_dict
   = Done [SetBuffer ''var_0'' ''shared'' True, SyncThreads \<lparr>loop_id = 3, extent = 8\<rparr> False,
           SetBuffer ''var_3'' ''shared'' True] \<and>
   SyncThreadWithShared_barriers (ex_sync_view [''var_0'', ''var_3'', ''var_2'']) ex_sync_graph []
     {} [0, 3, 2] ex_sync_shape_dict
   = [(''var_0'', [SetBuffer ''var_0'' ''shared'' True], \<lparr>loop_id = 3, extent = 8\<rparr>)] \<and>
   master_of_block ex_sync_graph {} [0, 3, 2] ''var_0'' = Some 2 \<and>
   master_of_block ex_sync_graph {} [0, 3, 2] ''var_3'' = Some 2 \<and>
   length (filter (\<lambda>event. event_master ex_sync_graph {} [0, 3, 2] event = Some 2)
     (SyncThreadWithShared_barriers (ex_sync_view [''var_0'', ''var_3'', ''var_2''])
        ex_sync_graph [] {} [0, 3, 2] ex_sync_shape_dict)) = 1"
proof -
  have events: "SyncThreadWithShared_barriers (ex_sync_view [''var_0'', ''var_3'', ''var_2''])
      ex_sync_graph [] {} [0, 3, 2] ex_sync_shape_dict
    = [(''var_0'', [SetBuffer ''var_0'' ''shared'' True], \<lparr>loop_id = 3, extent = 8\<rparr>)]"
    by (simp add: SyncThreadWithShared_barriers_def inserted_def ex_sync_run)
  have masters: "master_of_block ex_sync_graph {} [0, 3, 2] ''var_0'' = Some 2"
    "master_of_block ex_sync_graph {} [0, 3, 2] ''var_3'' = Some 2"
    by (simp_all add: master_of_block_def ex_sync_node_data_set ex_sync_masters)
  show ?thesis
    using SyncThreadWithShared_barrier_once [of "ex_sync_view [''var_0'', ''var_3'', ''var_2'']"
        ex_sync_graph "[]" "{}" "[0, 3, 2]" ex_sync_shape_dict]
      ex_sync_run events masters
    by (simp add: event_master_def)
qed









end
